theory Spec2Isabelle
  imports
    Complex_Main
    "HOL-Library.AList"
    "HOL-Library.Log_Nat"
    "HOL-Library.Char_ord"
    "HOL-Library.List_Lexorder"
begin

section \<open>Go values\<close>

subsection \<open>Maps\<close>

text \<open>
  A Go \<open>map[string]T\<close> is an association list with one entry per key: \<open>m[k] = v\<close> is
  \<open>AList.update k v m\<close>, \<open>delete(m, k)\<close> is \<open>AList.delete k m\<close>, \<open>len(m)\<close> is \<open>length m\<close> and
  \<open>for k, v := range m\<close> visits the entries of the list. Go leaves the order of that visit
  open; the order of the list stands for the order one run takes. Reading a key that is
  absent gives the zero value of \<open>T\<close>: \<open>get zero m k\<close>.
\<close>

type_synonym 'v gomap = "(string \<times> 'v) list"

type_synonym kv = "string list gomap"

definition get :: "'v \<Rightarrow> 'v gomap \<Rightarrow> string \<Rightarrow> 'v" where
  "get zero m k = (case map_of m k of Some v \<Rightarrow> v | None \<Rightarrow> zero)"

text \<open>
  \<open>reflect.DeepEqual\<close> on two \<open>map[string][]string\<close>: the same number of entries, and every
  key of the first is a key of the second with an equal list. (A nil and an empty list
  differ for \<open>reflect.DeepEqual\<close>; every list this program compares has an element.)
\<close>

definition DeepEqual :: "kv \<Rightarrow> kv \<Rightarrow> bool" where
  "DeepEqual a b = (length a = length b \<and> list_all (\<lambda>(k, v). map_of b k = Some v) a)"

subsection \<open>Strings\<close>

text \<open>\<open>strings.Split(s, ".")\<close> and \<open>strings.Join(a, ".")\<close>.\<close>

fun Split :: "string \<Rightarrow> string list" where
  "Split [] = [[]]"
| "Split (c # s) =
     (if c = CHR ''.'' then [] # Split s
      else (case Split s of [] \<Rightarrow> [[c]] | w # ws \<Rightarrow> (c # w) # ws))"

fun Join :: "string list \<Rightarrow> string" where
  "Join [] = []"
| "Join [x] = x"
| "Join (x # y # ys) = x @ ''.'' @ Join (y # ys)"

text \<open>\<open>strconv.FormatBool\<close>.\<close>

fun FormatBool :: "bool \<Rightarrow> string" where
  "FormatBool True = ''true''"
| "FormatBool False = ''false''"

subsection \<open>Integers and floats\<close>

text \<open>
  Go's \<open>int\<close> is 64 bits wide on the platforms the server runs on; \<open>wrap64\<close> is the value an
  \<open>int\<close> holds after an operation whose exact result is \<open>x\<close>.
\<close>

definition wrap64 :: "int \<Rightarrow> int" where
  "wrap64 x = (x + 2 ^ 63) mod 2 ^ 64 - 2 ^ 63"

text \<open>
  A finite \<open>float64\<close> is the rational it denotes. \<open>float64 x\<close> is the \<open>float64\<close> nearest to \<open>x\<close>,
  a tie going to the even mantissa (IEEE 754 round to nearest even with 53 bits): the result
  of a conversion or of an arithmetic operation whose exact result is \<open>x\<close>. \<open>ilog2 x\<close> is the
  exponent \<open>e\<close> with \<open>2^e \<le> x < 2^(e+1)\<close>, so \<open>2^(e-52)\<close> is the distance between neighbouring
  floats around \<open>x\<close>. The exponent range of the format (overflow to infinity, subnormal
  numbers) is not modelled: the values here are integers of 64 bits and their products with
  \<open>0.40\<close>.
\<close>

definition ilog2 :: "rat \<Rightarrow> int" where
  "ilog2 x = (let (p, q) = quotient_of x; d = bitlen p - bitlen q
              in if 2 powi d \<le> x then d else d - 1)"

definition RoundToEven :: "rat \<Rightarrow> int" where
  "RoundToEven y = (let f = \<lfloor>y\<rfloor>; r = y - of_int f
      in if r < 1 / 2 then f else if 1 / 2 < r then f + 1 else if even f then f else f + 1)"

definition float64 :: "rat \<Rightarrow> rat" where
  "float64 x = (if x = 0 then 0
     else let u = 2 powi (ilog2 \<bar>x\<bar> - 52) in of_int (RoundToEven (x / u)) * u)"

section \<open>The models package\<close>

text \<open>
  \<open>TestCase\<close> is the struct of models/tc.go. \<open>HttpReq\<close>, \<open>HttpResp\<close> and \<open>Dependency\<close> are
  declared outside the files at hand; their fields are those of the messages of the same
  names in the service definition (\<open>http.Header\<close> is a \<open>map[string][]string\<close>).
\<close>

datatype error = Error string

record HttpReq =
  Method :: string
  ProtoMajor :: int
  ProtoMinor :: int
  URL :: string
  URLParams :: "string gomap"
  ReqHeader :: kv
  ReqBody :: string

record HttpResp =
  StatusCode :: int
  RespHeader :: kv
  RespBody :: string

record Dependency =
  DepName :: string
  DepType :: string
  Meta :: "string gomap"
  Data :: "string list"

record TestCase =
  ID :: string
  Created :: int
  Updated :: int
  Captured :: int
  CID :: string
  AppID :: string
  URI :: string
  HttpReq :: HttpReq
  HttpResp :: HttpResp
  Deps :: "Dependency list"
  AllKeys :: kv
  Anchors :: kv
  Noise :: "string list"

section \<open>The run package: types\<close>

text \<open>
  The declarations of \<open>run.Test\<close>, \<open>run.TestRun\<close>, \<open>run.Result\<close> and their status constants
  are outside the files at hand; the records have the fields that run.go and regression.go
  read and write. \<open>TestStatusUnset\<close> is the zero value a \<open>run.Test\<close> has before a status is
  assigned.
\<close>

datatype TestStatus = TestStatusUnset | TestStatusRunning | TestStatusPassed | TestStatusFailed

datatype TestRunStatus = TestRunStatusRunning | TestRunStatusPassed | TestRunStatusFailed

datatype BodyType = BodyTypePlain | BodyTypeJSON

record IntResult =
  IntNormal :: bool
  IntExpected :: int
  IntActual :: int

record BodyResult =
  BodyNormal :: bool
  BodyTyp :: BodyType
  BodyExpected :: string
  BodyActual :: string

record Header =
  Key :: string
  Value :: "string list"

record HeaderResult =
  HdrNormal :: bool
  HdrExpected :: Header
  HdrActual :: Header

record Result =
  ResStatusCode :: IntResult
  ResBodyResult :: BodyResult
  HeadersResult :: "HeaderResult list"

record Test =
  TestID :: string
  Started :: int
  Completed :: int
  RunID :: string
  TestCaseID :: string
  TestURI :: string
  Req :: HttpReq
  Dep :: "Dependency list"
  Resp :: HttpResp
  TestResult :: Result
  TestNoise :: "string list"
  Status :: TestStatus

record TestRun =
  RunIdent :: string
  RunCreated :: int
  RunCID :: string
  RunStatus :: TestRunStatus
  Success :: int
  Failure :: int
  Tests :: "Test list"

section \<open>What lies outside the repository\<close>

text \<open>
  The stores (\<open>models.TestCaseDB\<close>, \<open>run.DB\<close>) are interfaces and the telemetry service is a
  collaborator: the services only call them. \<open>call\<close> is one such call with its arguments; a
  service keeps the list of the calls it has made, oldest first, and a store answers a call
  as a function of the calls made before it (\<open>store\<close>), which leaves every behaviour of a
  store open, failures included. An \<open>error option\<close> is a Go \<open>error\<close> (\<open>None\<close> is \<open>nil\<close>).
\<close>

datatype call =
    TdbUpsert TestCase
  | TdbGet string string
  | TdbDelete string
  | TdbGetKeys string string string
  | TdbDeleteByAnchor string string string kv
  | RdbPutTest Test
  | RdbIncrement bool bool string
  | RdbReadTests string
  | RdbUpsert TestRun
  | TeleDeleteTc
  | TeleTestrun int int

record store =
  tdb_Upsert :: "call list \<Rightarrow> TestCase \<Rightarrow> error option"
  tdb_Get :: "call list \<Rightarrow> string \<Rightarrow> string \<Rightarrow> error + TestCase"
  tdb_Delete :: "call list \<Rightarrow> string \<Rightarrow> error option"
  tdb_GetKeys :: "call list \<Rightarrow> string \<Rightarrow> string \<Rightarrow> string \<Rightarrow> error + TestCase list"
  tdb_DeleteByAnchor :: "call list \<Rightarrow> string \<Rightarrow> string \<Rightarrow> string \<Rightarrow> kv \<Rightarrow> error option"
  rdb_PutTest :: "call list \<Rightarrow> Test \<Rightarrow> error option"
  rdb_Increment :: "call list \<Rightarrow> bool \<Rightarrow> bool \<Rightarrow> string \<Rightarrow> error option"
  rdb_ReadTests :: "call list \<Rightarrow> string \<Rightarrow> error + Test list"
  rdb_Upsert :: "call list \<Rightarrow> TestRun \<Rightarrow> error option"

text \<open>
  What \<open>json.Unmarshal\<close> stores in an \<open>interface{}\<close>: \<open>nil\<close>, a \<open>bool\<close>, a \<open>float64\<close>, a
  \<open>string\<close>, a \<open>[]interface{}\<close> or a \<open>map[string]interface{}\<close>. The type \<open>'n\<close> stands for
  \<open>float64\<close> values.
\<close>

datatype 'n json =
    JNull
  | JBool bool
  | JNumber 'n
  | JString string
  | JArray "'n json list"
  | JObject "(string \<times> 'n json) list"

text \<open>
  The functions of the standard library and of the package \<open>pkg\<close> that the services call
  and that are outside the files at hand, as parameters: \<open>json.Valid\<close>, \<open>json.Unmarshal\<close>,
  \<open>strconv.FormatFloat\<close> (value, format, precision, bit size), \<open>pkg.Match\<close> (expected,
  actual, noise; the result and the error it returns), \<open>pkg.CompareHeaders\<close> (expected,
  actual, noise; the list it appends to its third argument and its result) and
  \<open>pkg.Contains\<close>.
\<close>

record 'n lib =
  Valid :: "string \<Rightarrow> bool"
  Unmarshal :: "string \<Rightarrow> error + 'n json"
  FormatFloat :: "'n \<Rightarrow> char \<Rightarrow> int \<Rightarrow> nat \<Rightarrow> string"
  Match :: "string \<Rightarrow> string \<Rightarrow> string list \<Rightarrow> bool \<times> error option"
  CompareHeaders :: "kv \<Rightarrow> kv \<Rightarrow> string gomap \<Rightarrow> HeaderResult list \<times> bool"
  Contains :: "string list \<Rightarrow> string \<Rightarrow> bool"

section \<open>flatten and addBody\<close>

text \<open>
  \<open>flatten\<close> of regression.go. \<open>map_put k nm out\<close> is the inner loop of the \<open>reflect.Map\<close>
  case (the entries of the child's map \<open>nm\<close> stored under the key \<open>k\<close>), \<open>slice_put\<close> that of
  the \<open>reflect.Slice\<close> case; \<open>flatten_map\<close> and \<open>flatten_slice\<close> are the outer loops, with the
  map \<open>out\<close> (the \<open>o\<close> of the source) built so far. \<open>ff\<close> is \<open>strconv.FormatFloat\<close>.
\<close>

definition map_put :: "string \<Rightarrow> kv \<Rightarrow> kv \<Rightarrow> kv" where
  "map_put k nm out =
     fold (\<lambda>(nk, nv) out. AList.update (if nk \<noteq> [] then k @ ''.'' @ nk else k) nv out) nm out"

definition slice_put :: "kv \<Rightarrow> kv \<Rightarrow> kv" where
  "slice_put nm out =
     fold (\<lambda>(nk, nv) out.
        (case map_of out nk of
           Some ov \<Rightarrow> AList.update nk (ov @ nv) out
         | None \<Rightarrow> AList.update nk nv out)) nm out"

fun flatten :: "('n \<Rightarrow> char \<Rightarrow> int \<Rightarrow> nat \<Rightarrow> string) \<Rightarrow> 'n json \<Rightarrow> kv"
  and flatten_map :: "('n \<Rightarrow> char \<Rightarrow> int \<Rightarrow> nat \<Rightarrow> string) \<Rightarrow> (string \<times> 'n json) list \<Rightarrow> kv \<Rightarrow> kv"
  and flatten_slice :: "('n \<Rightarrow> char \<Rightarrow> int \<Rightarrow> nat \<Rightarrow> string) \<Rightarrow> 'n json list \<Rightarrow> kv \<Rightarrow> kv"
where
  "flatten ff JNull = [([], [[]])]"
| "flatten ff (JObject m) = flatten_map ff m []"
| "flatten ff (JBool b) = AList.update [] [FormatBool b] []"
| "flatten ff (JNumber x) = AList.update [] [ff x CHR ''E'' (- 1) 64] []"
| "flatten ff (JString s) = AList.update [] [s] []"
| "flatten ff (JArray child) = flatten_slice ff child []"
| "flatten_map ff [] out = out"
| "flatten_map ff ((k, v) # m) out = flatten_map ff m (map_put k (flatten ff v) out)"
| "flatten_slice ff [] out = out"
| "flatten_slice ff (av # child) out = flatten_slice ff child (slice_put (flatten ff av) out)"

text \<open>The key under which \<open>addBody\<close> and \<open>isDup\<close> store the entry \<open>k\<close> of a flattened body.\<close>

definition body_key :: "string \<Rightarrow> string" where
  "body_key k = (if k \<noteq> [] then ''body'' @ ''.'' @ k else ''body'')"


section \<open>isAnchor\<close>

text \<open>
  \<open>isAnchor\<close> of regression.go, on a histogram \<open>map[string]int\<close>. The sum is taken in \<open>int\<close>;
  the comparison \<open>float64(totalCount)*0.40 > float64(len(m))\<close> converts both integers and the
  constant \<open>0.40\<close> to \<open>float64\<close> and rounds the product.
\<close>

definition isAnchor :: "int gomap \<Rightarrow> bool" where
  "isAnchor m =
     (let totalCount = fold (\<lambda>(k, v) totalCount. wrap64 (totalCount + v)) m 0
      in if totalCount < 20 then True
         else if float64 (of_nat (length m)) < float64 (float64 (of_int totalCount) * float64 (2 / 5))
              then True
              else False)"

section \<open>The regression service\<close>

text \<open>
  The fields of \<open>Regression\<close> that its methods read and write: the three caches, keyed by
  the index \<open>cid-appID-uri\<close>, and the switch \<open>EnableDeDup\<close>; \<open>calls\<close> is the list of the calls
  the service has made on its collaborators. The mutex is left out (one method runs at a
  time here), and so is the logger.
\<close>

record Regression =
  anchors :: "kv list gomap"
  noisyFields :: "bool gomap gomap"
  fieldCounts :: "int gomap gomap gomap"
  EnableDeDup :: bool
  calls :: "call list"

definition called :: "call \<Rightarrow> Regression \<Rightarrow> Regression" where
  "called c r = r\<lparr>calls := calls r @ [c]\<rparr>"

text \<open>\<open>fmt.Sprintf("%s-%s-%s", t.CID, t.AppID, t.URI)\<close>.\<close>

definition index_of :: "TestCase \<Rightarrow> string" where
  "index_of t = CID t @ ''-'' @ AppID t @ ''-'' @ URI t"

subsection \<open>fillCache\<close>

text \<open>
  \<open>fieldCounts[k][v2] = fieldCounts[k][v2] + 1\<close> on a histogram, and the loops of
  \<open>fillCache\<close> from the innermost out: over the values of one key (after the key was given
  an empty histogram when it had none), over the keys of one test case, over the test cases.
\<close>

definition bump :: "string \<Rightarrow> int gomap \<Rightarrow> int gomap" where
  "bump v m = AList.update v (wrap64 (get 0 m v + 1)) m"

definition fill_values :: "string \<Rightarrow> string list \<Rightarrow> int gomap gomap \<Rightarrow> int gomap gomap" where
  "fill_values k v1 fc =
     fold (\<lambda>v2 fc. AList.update k (bump v2 (get [] fc k)) fc) v1
       (if map_of fc k = None then AList.update k [] fc else fc)"

definition fill_keys ::
  "kv \<Rightarrow> int gomap gomap \<times> bool gomap \<Rightarrow> int gomap gomap \<times> bool gomap" where
  "fill_keys allKeys st =
     fold (\<lambda>(k, v1) (fc, nf).
        (let fc' = fill_values k v1 fc
         in (fc', if \<not> isAnchor (get [] fc' k) then AList.update k True nf else nf))) allKeys st"

definition fill_cases ::
  "TestCase list \<Rightarrow> kv list \<times> int gomap gomap \<times> bool gomap \<Rightarrow> kv list \<times> int gomap gomap \<times> bool gomap"
where
  "fill_cases tcs st =
     fold (\<lambda>v (an, fc, nf). (an @ [Anchors v], fill_keys (AllKeys v) (fc, nf))) tcs st"

text \<open>
  \<open>fillCache\<close>. The test before the lock and the test after it read the same maps here, so
  the second is the negation of the first.
\<close>

definition fillCache :: "store \<Rightarrow> Regression \<Rightarrow> TestCase \<Rightarrow> Regression \<times> (error + string)" where
  "fillCache db r t =
     (let index = index_of t
      in if map_of (noisyFields r) index \<noteq> None \<and> map_of (fieldCounts r) index \<noteq> None
         then (r, Inr index)
         else
           (case tdb_GetKeys db (calls r) (CID t) (AppID t) (URI t) of
              Inl err \<Rightarrow> (called (TdbGetKeys (CID t) (AppID t) (URI t)) r, Inl err)
            | Inr tcs \<Rightarrow>
                (case fill_cases tcs ([], [], []) of
                   (an, fc, nf) \<Rightarrow>
                     (called (TdbGetKeys (CID t) (AppID t) (URI t))
                        (r\<lparr>fieldCounts := AList.update index fc (fieldCounts r),
                           noisyFields := AList.update index nf (noisyFields r),
                           anchors := AList.update index an (anchors r)\<rparr>),
                      Inr index))))"

subsection \<open>isDup and exists\<close>

text \<open>
  A \<open>[]string\<close> is a view of an array, and \<open>isDup\<close> stores the same view under a key of
  \<open>reqKeys\<close> and of \<open>filterKeys\<close>, which \<open>exists\<close> then sorts in place. So the arrays live in
  a store: \<open>heap\<close> is the list of the arrays allocated so far, an address is a position in
  it, and \<open>reqKeys\<close> and \<open>filterKeys\<close> map a key to an address. Every value of \<open>reqKeys\<close> is an
  array of its own: the header and parameter lists are composite literals, and the lists
  of \<open>flatten\<close> under different keys never share an array. \<open>deref\<close> reads a map of addresses
  as the \<open>map[string][]string\<close> it is at that moment.
\<close>

type_synonym heap = "string list list"

definition deref :: "heap \<Rightarrow> nat gomap \<Rightarrow> kv" where
  "deref h m = map (\<lambda>(k, a). (k, h ! a)) m"

definition put_slice :: "string \<Rightarrow> string list \<Rightarrow> nat gomap \<times> heap \<Rightarrow> nat gomap \<times> heap" where
  "put_slice k v st = (case st of (m, h) \<Rightarrow> (AList.update k (length h) m, h @ [v]))"

text \<open>
  \<open>exists\<close>: every list of the candidate is sorted in its array (\<open>sort.Strings\<close>), then the
  candidate is compared with the combinations cached for the index. Its error is always
  \<open>nil\<close>.
\<close>

definition sort_slices :: "nat gomap \<Rightarrow> heap \<Rightarrow> heap" where
  "sort_slices m h = fold (\<lambda>(k, a) h. h[a := sort (h ! a)]) m h"

definition exists :: "Regression \<Rightarrow> heap \<Rightarrow> nat gomap \<Rightarrow> string \<Rightarrow> heap \<times> bool" where
  "exists r h anchs index =
     (let h' = sort_slices anchs h
      in (h', list_ex (\<lambda>v. DeepEqual v (deref h' anchs)) (get [] (anchors r) index)))"

text \<open>
  The request keys of \<open>isDup\<close>: the headers, the URL parameters, and the body when it is
  valid JSON (\<open>Inl\<close> when \<open>json.Unmarshal\<close> fails).
\<close>

definition req_keys :: "'n lib \<Rightarrow> HttpReq \<Rightarrow> error + nat gomap \<times> heap" where
  "req_keys L q =
     (let st1 = fold (\<lambda>(k, v). put_slice (''header.'' @ k) [concat v]) (ReqHeader q) ([], []);
          st2 = fold (\<lambda>(k, v). put_slice (''url_params.'' @ k) [v]) (URLParams q) st1
      in if Valid L (ReqBody q) then
           (case Unmarshal L (ReqBody q) of
              Inl err \<Rightarrow> Inl err
            | Inr result \<Rightarrow>
                Inr (fold (\<lambda>(k, v). put_slice (body_key k) v) (flatten (FormatFloat L) result) st2))
         else Inr st2)"

text \<open>
  The loop of \<open>isDup\<close> over \<open>reqKeys\<close>. \<open>count_value\<close> is one round of its inner loop: the key
  gets an empty histogram in \<open>fieldCounts[index]\<close> when it has none, then the count of the
  value goes up by one. The state of the loop is the service, \<open>filterKeys\<close> and
  \<open>isAnchorChange\<close>. The writes go to \<open>fieldCounts[index]\<close> and \<open>noisyFields[index]\<close>, which
  \<open>fillCache\<close> has made sure exist.
\<close>

definition count_value :: "string \<Rightarrow> string \<Rightarrow> string \<Rightarrow> int gomap gomap gomap \<Rightarrow> int gomap gomap gomap" where
  "count_value index k s fcs =
     AList.update index (AList.update k (bump s (get [] (get [] fcs index) k)) (get [] fcs index)) fcs"

definition anchor_step ::
  "string \<Rightarrow> heap \<Rightarrow> string \<times> nat \<Rightarrow> Regression \<times> nat gomap \<times> bool \<Rightarrow> Regression \<times> nat gomap \<times> bool"
where
  "anchor_step index h e st =
     (case (e, st) of ((k, a), (r, filterKeys, isAnchorChange)) \<Rightarrow>
        if \<not> get False (get [] (noisyFields r) index) k then
          (let r1 = r\<lparr>fieldCounts := fold (count_value index k) (h ! a) (fieldCounts r)\<rparr>
           in if \<not> isAnchor (get [] (get [] (fieldCounts r1) index) k) then
                (r1\<lparr>noisyFields :=
                      AList.update index (AList.update k True (get [] (noisyFields r1) index))
                        (noisyFields r1)\<rparr>,
                 filterKeys, True)
              else (r1, AList.update k a filterKeys, isAnchorChange))
        else (r, filterKeys, isAnchorChange))"

text \<open>
  \<open>isDup\<close>. The result is the service, the test case behind the pointer \<open>t\<close> and what the
  method returns. \<open>DeleteByAnchor\<close> is given \<open>filterKeys\<close> before \<open>exists\<close> sorts it; the
  fields \<open>AllKeys\<close> and \<open>Anchors\<close> and the combination appended to \<open>anchors[index]\<close> are views
  of the arrays that \<open>exists\<close> has sorted.
\<close>

definition isDup ::
  "'n lib \<Rightarrow> store \<Rightarrow> Regression \<Rightarrow> TestCase \<Rightarrow> Regression \<times> TestCase \<times> (error + bool)" where
  "isDup L db r t =
     (case fillCache db r t of
        (r1, Inl err) \<Rightarrow> (r1, t, Inl err)
      | (r1, Inr index) \<Rightarrow>
          (case req_keys L (HttpReq t) of
             Inl err \<Rightarrow> (r1, t, Inl err)
           | Inr (reqKeys, h) \<Rightarrow>
               (case fold (anchor_step index h) reqKeys (r1, [], True) of
                  (r2, filterKeys, isAnchorChange) \<Rightarrow>
                    if length filterKeys = 0 then (r2, t, Inr True)
                    else
                      (case (if isAnchorChange
                             then (called (TdbDeleteByAnchor (CID t) (AppID t) (URI t) (deref h filterKeys)) r2,
                                   tdb_DeleteByAnchor db (calls r2) (CID t) (AppID t) (URI t) (deref h filterKeys))
                             else (r2, None)) of
                         (r3, Some err) \<Rightarrow> (r3, t, Inl err)
                       | (r3, None) \<Rightarrow>
                           (case exists r3 h filterKeys index of
                              (h', dup) \<Rightarrow>
                                (r3\<lparr>anchors :=
                                      AList.update index (get [] (anchors r3) index @ [deref h' filterKeys])
                                        (anchors r3)\<rparr>,
                                 t\<lparr>AllKeys := deref h' reqKeys, Anchors := deref h' filterKeys\<rparr>,
                                 Inr dup))))))"

subsection \<open>putTC and Put\<close>

definition putTC :: "'n lib \<Rightarrow> store \<Rightarrow> Regression \<Rightarrow> string \<Rightarrow> TestCase \<Rightarrow> Regression \<times> (error + string)" where
  "putTC L db r cid t0 =
     (let t = t0\<lparr>CID := cid\<rparr>;
          upsert = (\<lambda>r t.
            (case tdb_Upsert db (calls r) t of
               Some err \<Rightarrow> (called (TdbUpsert t) r, Inl (Error ''internal failure''))
             | None \<Rightarrow> (called (TdbUpsert t) r, Inr (ID t))))
      in if EnableDeDup r then
           (case isDup L db r t of
              (r1, t1, Inl err) \<Rightarrow> (r1, Inl (Error ''internal failure''))
            | (r1, t1, Inr dup) \<Rightarrow> if dup then (r1, Inr []) else upsert r1 t1)
         else upsert r t)"

fun Put_loop ::
  "'n lib \<Rightarrow> store \<Rightarrow> string \<Rightarrow> TestCase list \<Rightarrow> Regression \<Rightarrow> string list \<Rightarrow> Regression \<times> string list \<times> error option"
where
  "Put_loop L db cid [] r ids = (r, ids, None)"
| "Put_loop L db cid (t # tcs) r ids =
     (case putTC L db r cid t of
        (r1, Inl err) \<Rightarrow> (r1, ids, Some (Error ''failed saving testcase''))
      | (r1, Inr tid) \<Rightarrow> Put_loop L db cid tcs r1 (ids @ [tid]))"

definition Put :: "'n lib \<Rightarrow> store \<Rightarrow> Regression \<Rightarrow> string \<Rightarrow> TestCase list \<Rightarrow> Regression \<times> string list \<times> error option" where
  "Put L db r cid tcs =
     (if length tcs = 0 then (r, [], Some (Error ''no testcase to update''))
      else Put_loop L db cid tcs r [])"

subsection \<open>DeleteTC\<close>

definition DeleteTC :: "store \<Rightarrow> Regression \<Rightarrow> string \<Rightarrow> string \<Rightarrow> Regression \<times> error option" where
  "DeleteTC db r cid tid =
     (case tdb_Get db (calls r) cid tid of
        Inl err \<Rightarrow> (called (TdbGet cid tid) r, Some (Error ''internal failure''))
      | Inr t \<Rightarrow>
          (let r1 = (called (TdbGet cid tid) r)\<lparr>anchors := AList.delete (index_of t) (anchors r)\<rparr>
           in (case tdb_Delete db (calls r1) tid of
                 Some err \<Rightarrow> (called (TdbDelete tid) r1, Some (Error ''internal failure''))
               | None \<Rightarrow> (called TeleDeleteTc (called (TdbDelete tid) r1), None))))"

subsection \<open>DeNoise\<close>




subsection \<open>test, saveResult and Test\<close>

text \<open>
  The loop of \<open>test\<close> over \<open>tc.Noise\<close>: a path \<open>body.x\<close> gives the body noise \<open>x\<close>, a path that
  starts with \<open>header\<close> gives its last segment as header noise.
\<close>

definition noise_step :: "string \<Rightarrow> string list \<times> string gomap \<Rightarrow> string list \<times> string gomap" where
  "noise_step n st =
     (case st of (bodyNoise, headerNoise) \<Rightarrow>
        (let a = Split n
         in if length a > 1 \<and> hd a = ''body'' then (bodyNoise @ [Join (tl a)], headerNoise)
            else if hd a = ''header'' then (bodyNoise, AList.update (last a) (last a) headerNoise)
            else (bodyNoise, headerNoise)))"

text \<open>
  \<open>test\<close> returns the verdict, the result, the test case and the error; the last two
  pointers are \<open>nil\<close> (\<open>None\<close>) when the test case cannot be read.
\<close>

definition test ::
  "'n lib \<Rightarrow> store \<Rightarrow> Regression \<Rightarrow> string \<Rightarrow> string \<Rightarrow> string \<Rightarrow> HttpResp
   \<Rightarrow> Regression \<times> bool \<times> Result option \<times> TestCase option \<times> error option"
where
  "test L db r cid tid app resp =
     (case tdb_Get db (calls r) cid tid of
        Inl err \<Rightarrow> (called (TdbGet cid tid) r, False, None, None, Some err)
      | Inr tc \<Rightarrow>
          (let r1 = called (TdbGet cid tid) r;
               bodyType = (if Valid L (RespBody resp) then BodyTypeJSON else BodyTypePlain);
               res = \<lparr>ResStatusCode =
                        \<lparr>IntNormal = False, IntExpected = StatusCode (HttpResp tc),
                         IntActual = StatusCode resp\<rparr>,
                      ResBodyResult =
                        \<lparr>BodyNormal = False, BodyTyp = bodyType,
                         BodyExpected = RespBody (HttpResp tc), BodyActual = RespBody resp\<rparr>,
                      HeadersResult = []\<rparr>;
               noise = fold noise_step (Noise tc) ([], []);
               bodyNoise = fst noise;
               headerNoise = snd noise;
               compared =
                 (if \<not> Contains L (Noise tc) ''body'' \<and> bodyType = BodyTypeJSON
                  then Match L (RespBody (HttpResp tc)) (RespBody resp) bodyNoise
                  else if \<not> Contains L (Noise tc) ''body'' \<and> RespBody (HttpResp tc) \<noteq> RespBody resp
                       then (False, None)
                       else (True, None))
           in (case compared of
                 (pass, Some err) \<Rightarrow> (r1, False, Some res, Some tc, Some err)
               | (pass, None) \<Rightarrow>
                   (let res1 = res\<lparr>ResBodyResult := (ResBodyResult res)\<lparr>BodyNormal := pass\<rparr>\<rparr>;
                        hdr = CompareHeaders L (RespHeader (HttpResp tc)) (RespHeader resp) headerNoise;
                        pass1 = (if \<not> snd hdr then False else pass);
                        res2 = res1\<lparr>HeadersResult := fst hdr\<rparr>
                    in if StatusCode (HttpResp tc) = StatusCode resp
                       then (r1, pass1,
                             Some (res2\<lparr>ResStatusCode := (ResStatusCode res2)\<lparr>IntNormal := True\<rparr>\<rparr>),
                             Some tc, None)
                       else (r1, False, Some res2, Some tc, None)))))"

definition saveResult :: "store \<Rightarrow> Regression \<Rightarrow> Test \<Rightarrow> Regression \<times> error option" where
  "saveResult db r t =
     (case rdb_PutTest db (calls r) t of
        Some err \<Rightarrow> (called (RdbPutTest t) r, Some err)
      | None \<Rightarrow>
          (let r1 = called (RdbPutTest t) r
           in if Status t = TestStatusFailed
              then (called (RdbIncrement False True (RunID t)) r1,
                    rdb_Increment db (calls r1) False True (RunID t))
              else (called (RdbIncrement True False (RunID t)) r1,
                    rdb_Increment db (calls r1) True False (RunID t))))"

text \<open>
  A call either returns or panics. \<open>Test\<close> takes what the two readings of the clock and
  \<open>uuid.New\<close> give as arguments. When \<open>test\<close> hands back no test case, \<open>t\<close> stays \<open>nil\<close> and
  the assignment to \<open>t.Completed\<close> is a nil pointer dereference, before the deferred
  \<open>saveResult\<close> is registered. Otherwise the deferred call runs after the return value is
  fixed, and its error is only logged.
\<close>

datatype 'a outcome = Panic | Return 'a

definition Test ::
  "'n lib \<Rightarrow> store \<Rightarrow> Regression \<Rightarrow> int \<Rightarrow> int \<Rightarrow> string \<Rightarrow> string \<Rightarrow> string \<Rightarrow> string \<Rightarrow> string \<Rightarrow> HttpResp
   \<Rightarrow> Regression \<times> (bool \<times> error option) outcome"
where
  "Test L db r started completed uuid cid app runID tid resp =
     (case test L db r cid tid app resp of
        (r1, ok, res, None, err) \<Rightarrow> (r1, Panic)
      | (r1, ok, None, Some tc, err) \<Rightarrow> (r1, Panic)
      | (r1, ok, Some res, Some tc, err) \<Rightarrow>
          (let t = \<lparr>TestID = uuid, Started = started, Completed = 0, RunID = runID,
                    TestCaseID = tid, TestURI = URI tc, Req = HttpReq tc, Dep = Deps tc,
                    Resp = resp, TestResult = res, TestNoise = Noise tc,
                    Status = TestStatusUnset\<rparr>;
               t1 = t\<lparr>Completed := completed\<rparr>;
               t2 = (if err \<noteq> None then t1\<lparr>Status := TestStatusFailed\<rparr> else t1)
           in if ok
              then (fst (saveResult db r1 (t2\<lparr>Status := TestStatusPassed\<rparr>)), Return (ok, None))
              else (fst (saveResult db r1 (t2\<lparr>Status := TestStatusFailed\<rparr>)), Return (False, None))))"

section \<open>The run service\<close>

text \<open>
  The fields of \<open>Run\<close> that \<open>updateStatus\<close> reads and writes, and the calls it has made.
  A time is a count of nanoseconds since the Unix epoch, \<open>time.Unix(ts, 0)\<close> is \<open>ts\<close> seconds,
  and \<open>Sub\<close> is \<open>Time.Sub\<close>: the difference as a \<open>time.Duration\<close>, an \<open>int64\<close> of nanoseconds
  that stops at its largest and smallest value.
\<close>

record Run =
  runCount :: int
  run_calls :: "call list"

definition run_called :: "call \<Rightarrow> Run \<Rightarrow> Run" where
  "run_called c r = r\<lparr>run_calls := run_calls r @ [c]\<rparr>"

definition Sub :: "int \<Rightarrow> int \<Rightarrow> int" where
  "Sub t u = max (- (2 ^ 63)) (min (2 ^ 63 - 1) (t - u))"

definition Minute :: int where
  "Minute = 60 * 1000000000"

text \<open>\<open>failOldTestRuns\<close>; \<open>now\<close> is what \<open>time.Now()\<close> gives. The run behind \<open>tr\<close> is returned.\<close>

definition failOldTestRuns :: "store \<Rightarrow> int \<Rightarrow> Run \<Rightarrow> int \<Rightarrow> TestRun \<Rightarrow> Run \<times> TestRun \<times> error option" where
  "failOldTestRuns db now r ts tr =
     (let diff = Sub now (ts * 1000000000)
      in if diff < 5 * Minute then (r, tr, None)
         else
           (let tr' = tr\<lparr>RunStatus := TestRunStatusFailed\<rparr>
            in (case rdb_Upsert db (run_calls r) tr' of
                  Some err2 \<Rightarrow>
                    (run_called (RdbUpsert tr') r, tr',
                     Some (Error ''failed validating and updating test run status''))
                | None \<Rightarrow> (run_called (RdbUpsert tr') r, tr', None))))"

text \<open>The newest start among the tests of a run: \<open>tests[0].Started\<close>, then the larger ones.\<close>

definition newest :: "Test list \<Rightarrow> int" where
  "newest tests = fold (\<lambda>t ts. if Started t > ts then Started t else ts) tests (Started (hd tests))"

text \<open>
  The first loop of \<open>updateStatus\<close>, from the run at position \<open>i\<close> of the batch on.
  \<open>clock i\<close> is what \<open>time.Now()\<close> gives when the run at position \<open>i\<close> is looked at, and
  \<open>tests\<close> is the counter of the runs that are not running. The result holds the runs as
  the loop leaves them.
\<close>

fun status_loop ::
  "store \<Rightarrow> (nat \<Rightarrow> int) \<Rightarrow> nat \<Rightarrow> Run \<Rightarrow> int \<Rightarrow> TestRun list \<Rightarrow> Run \<times> int \<times> TestRun list \<times> error option"
where
  "status_loop db clock i r tests [] = (r, tests, [], None)"
| "status_loop db clock i r tests (tr # trs) =
     (if RunStatus tr \<noteq> TestRunStatusRunning then
        (case status_loop db clock (Suc i) r (tests + 1) trs of
           (r', n, trs', err) \<Rightarrow> (r', n, tr # trs', err))
      else
        (case rdb_ReadTests db (run_calls r) (RunIdent tr) of
           Inl err1 \<Rightarrow>
             (run_called (RdbReadTests (RunIdent tr)) r, tests, tr # trs,
              Some (Error ''failed getting tests from DB''))
         | Inr ts \<Rightarrow>
             (case failOldTestRuns db (clock i) (run_called (RdbReadTests (RunIdent tr)) r)
                     (if length ts = 0 then RunCreated tr else newest ts) tr of
                (r1, tr', Some err) \<Rightarrow> (r1, tests, tr' # trs, Some err)
              | (r1, tr', None) \<Rightarrow>
                  (case status_loop db clock (Suc i) r1 tests trs of
                     (r', n, trs', err) \<Rightarrow> (r', n, tr' # trs', err)))))"

text \<open>
  \<open>updateStatus\<close>: the loop, then the telemetry for the runs that are not running when
  the counter differs from \<open>runCount\<close>.
\<close>

definition updateStatus :: "store \<Rightarrow> (nat \<Rightarrow> int) \<Rightarrow> Run \<Rightarrow> TestRun list \<Rightarrow> Run \<times> TestRun list \<times> error option" where
  "updateStatus db clock r trs =
     (case status_loop db clock 0 r 0 trs of
        (r1, tests, trs', Some err) \<Rightarrow> (r1, trs', Some err)
      | (r1, tests, trs', None) \<Rightarrow>
          if tests \<noteq> runCount r1 then
            (r1\<lparr>runCount := tests,
                run_calls := run_calls r1 @
                  map (\<lambda>tr. TeleTestrun (Success tr) (Failure tr))
                    (filter (\<lambda>tr. RunStatus tr \<noteq> TestRunStatusRunning) trs')\<rparr>,
             trs', None)
          else (r1, trs', None))"

section \<open>An example environment\<close>

text \<open>
  A small world to run the services in: a library that knows three JSON texts, a store
  that holds one test case and never fails, and a fresh service. \<open>quoted s\<close> is \<open>s\<close> between
  double quotes, so \<open>ex_expected\<close> is the text \<open>{"ts":1,"user":"bob"}\<close>, \<open>ex_observed\<close> is
  \<open>{"ts":2,"user":"bob"}\<close> and \<open>ex_tags\<close> is \<open>{"tags":["b","a"]}\<close>. Numbers are integers here,
  and \<open>ex_FormatFloat\<close> writes the ones that occur the way \<open>strconv.FormatFloat\<close> does.
  \<open>ex_Match\<close> and \<open>ex_CompareHeaders\<close> stand in for the functions of \<open>pkg\<close>: they pass equal
  operands.
\<close>

definition quoted :: "string \<Rightarrow> string" where
  "quoted s = CHR 0x22 # s @ [CHR 0x22]"

definition ex_expected :: string where
  "ex_expected = ''{'' @ quoted ''ts'' @ '':1,'' @ quoted ''user'' @ '':'' @ quoted ''bob'' @ ''}''"

definition ex_observed :: string where
  "ex_observed = ''{'' @ quoted ''ts'' @ '':2,'' @ quoted ''user'' @ '':'' @ quoted ''bob'' @ ''}''"

definition ex_tags :: string where
  "ex_tags = ''{'' @ quoted ''tags'' @ '':['' @ quoted ''b'' @ '','' @ quoted ''a'' @ '']}''"

definition ex_Unmarshal :: "string \<Rightarrow> error + int json" where
  "ex_Unmarshal s =
     (if s = ex_expected then Inr (JObject [(''ts'', JNumber 1), (''user'', JString ''bob'')])
      else if s = ex_observed then Inr (JObject [(''ts'', JNumber 2), (''user'', JString ''bob'')])
      else if s = ex_tags then Inr (JObject [(''tags'', JArray [JString ''b'', JString ''a''])])
      else Inl (Error ''invalid character''))"

definition ex_FormatFloat :: "int \<Rightarrow> char \<Rightarrow> int \<Rightarrow> nat \<Rightarrow> string" where
  "ex_FormatFloat x fmt prec bitSize = (if x = 1 then ''1E+00'' else if x = 2 then ''2E+00'' else ''0E+00'')"

definition ex_Match :: "string \<Rightarrow> string \<Rightarrow> string list \<Rightarrow> bool \<times> error option" where
  "ex_Match expected actual noise = (expected = actual, None)"

definition ex_CompareHeaders :: "kv \<Rightarrow> kv \<Rightarrow> string gomap \<Rightarrow> HeaderResult list \<times> bool" where
  "ex_CompareHeaders expected actual noise = ([], expected = actual)"

definition ex_lib :: "int lib" where
  "ex_lib =
     \<lparr>Valid = (\<lambda>s. s = ex_expected \<or> s = ex_observed \<or> s = ex_tags),
      Unmarshal = ex_Unmarshal,
      FormatFloat = ex_FormatFloat,
      Match = ex_Match,
      CompareHeaders = ex_CompareHeaders,
      Contains = (\<lambda>xs x. x \<in> set xs)\<rparr>"

definition ex_req :: HttpReq where
  "ex_req =
     \<lparr>Method = ''POST'', ProtoMajor = 1, ProtoMinor = 1, URL = ''/b10aliens'', URLParams = [],
      ReqHeader = [(''Accept'', [''text'', ''json''])], ReqBody = ex_tags\<rparr>"

definition ex_resp :: HttpResp where
  "ex_resp = \<lparr>StatusCode = 200, RespHeader = [(''Server'', [''gin''])], RespBody = ex_expected\<rparr>"

definition ex_tc :: TestCase where
  "ex_tc =
     \<lparr>ID = ''tc-1'', Created = 0, Updated = 0, Captured = 0, CID = ''cid'', AppID = ''app'',
      URI = ''/b10aliens'', HttpReq = ex_req, HttpResp = ex_resp, Deps = [], AllKeys = [],
      Anchors = [], Noise = [''header.Date'']\<rparr>"

definition ex_store :: store where
  "ex_store =
     \<lparr>tdb_Upsert = (\<lambda>cs t. None),
      tdb_Get = (\<lambda>cs cid tid. if tid = ''tc-1'' then Inr ex_tc else Inl (Error ''no documents in result'')),
      tdb_Delete = (\<lambda>cs tid. None),
      tdb_GetKeys = (\<lambda>cs cid app uri. Inr []),
      tdb_DeleteByAnchor = (\<lambda>cs cid app uri filterKeys. None),
      rdb_PutTest = (\<lambda>cs t. None),
      rdb_Increment = (\<lambda>cs success failure tid. None),
      rdb_ReadTests = (\<lambda>cs runID. Inr []),
      rdb_Upsert = (\<lambda>cs tr. None)\<rparr>"

definition ex_regression :: Regression where
  "ex_regression = \<lparr>anchors = [], noisyFields = [], fieldCounts = [], EnableDeDup = True, calls = []\<rparr>"

text \<open>The same store with a run database that refuses every \<open>PutTest\<close>.\<close>

definition ex_store_down :: store where
  "ex_store_down = ex_store\<lparr>rdb_PutTest := \<lambda>cs t. Some (Error ''connection refused'')\<rparr>"

text \<open>
  A second test case with another body, a store that has no room for it, and a service
  that has found the header \<open>Accept\<close> noisy.
\<close>

definition ex_tc2 :: TestCase where
  "ex_tc2 = ex_tc\<lparr>ID := ''tc-2'', HttpReq := ex_req\<lparr>ReqBody := ex_expected\<rparr>\<rparr>"

definition ex_store_full :: store where
  "ex_store_full =
     ex_store\<lparr>tdb_Upsert := \<lambda>cs t. if ID t = ''tc-2'' then Some (Error ''disk full'') else None\<rparr>"

definition ex_warm :: Regression where
  "ex_warm =
     \<lparr>anchors = [(''cid-app-/b10aliens'', [])],
      noisyFields = [(''cid-app-/b10aliens'', [(''header.Accept'', True)])],
      fieldCounts = [(''cid-app-/b10aliens'', [])],
      EnableDeDup = True, calls = []\<rparr>"

text \<open>
  A store that keeps what it is given: \<open>stored cs\<close> is the list of the test cases held
  after the calls \<open>cs\<close>, as the contract of the test-case store reads (an upsert replaces
  the case of the same id, \<open>DeleteByAnchor\<close> removes the cases of the endpoint whose anchors
  equal the filter). \<open>ex_captured\<close> is a fresh service after it has captured two test
  cases into this store, \<open>ex_deleted\<close> the same service after the first was deleted.
\<close>

fun apply_call :: "call \<Rightarrow> TestCase list \<Rightarrow> TestCase list" where
  "apply_call (TdbUpsert t) held = filter (\<lambda>x. ID x \<noteq> ID t) held @ [t]"
| "apply_call (TdbDelete tid) held = filter (\<lambda>x. ID x \<noteq> tid) held"
| "apply_call (TdbDeleteByAnchor cid app uri filterKeys) held =
     filter (\<lambda>x. \<not> (CID x = cid \<and> AppID x = app \<and> URI x = uri \<and> DeepEqual (Anchors x) filterKeys)) held"
| "apply_call c held = held"

definition stored :: "call list \<Rightarrow> TestCase list" where
  "stored cs = fold apply_call cs []"

definition ex_store_live :: store where
  "ex_store_live =
     ex_store
       \<lparr>tdb_Get := (\<lambda>cs cid tid.
            (case find (\<lambda>x. ID x = tid \<and> CID x = cid) (stored cs) of
               Some t \<Rightarrow> Inr t
             | None \<Rightarrow> Inl (Error ''no documents in result''))),
        tdb_GetKeys := (\<lambda>cs cid app uri.
            Inr (filter (\<lambda>x. CID x = cid \<and> AppID x = app \<and> URI x = uri) (stored cs)))\<rparr>"

definition ex_captured :: Regression where
  "ex_captured = fst (Put ex_lib ex_store_live ex_regression ''cid'' [ex_tc, ex_tc2])"

definition ex_deleted :: Regression where
  "ex_deleted = fst (DeleteTC ex_store_live ex_captured ''cid'' ''tc-1'')"

section \<open>Notions used in the properties\<close>

text \<open>
  The request keys are well formed when no key occurs twice and every address is one of
  the heap.
\<close>

definition wf_keys :: "nat gomap \<times> heap \<Rightarrow> bool" where
  "wf_keys st = (distinct (map fst (fst st)) \<and> (\<forall>(k, a) \<in> set (fst st). a < length (snd st)))"

text \<open>
  \<open>Put_reached\<close> is the service as \<open>Put\<close> reaches the case at position \<open>i\<close> of the batch,
  \<open>Put_collected\<close> the ids and the error it has by then.
\<close>

definition Put_reached ::
  "'n lib \<Rightarrow> store \<Rightarrow> string \<Rightarrow> TestCase list \<Rightarrow> Regression \<Rightarrow> nat \<Rightarrow> Regression" where
  "Put_reached L db cid tcs r i = fst (Put_loop L db cid (take i tcs) r [])"

definition Put_collected ::
  "'n lib \<Rightarrow> store \<Rightarrow> string \<Rightarrow> TestCase list \<Rightarrow> Regression \<Rightarrow> nat \<Rightarrow> string list \<times> error option" where
  "Put_collected L db cid tcs r i = snd (Put_loop L db cid (take i tcs) r [])"

section \<open>Properties\<close>

subsection \<open>Rounding to float64\<close>

lemma ilog2_bounds:
  assumes "0 < x"
  shows "2 powi (ilog2 x) \<le> x \<and> x < 2 powi (ilog2 x + 1)"
proof -
  obtain p q where pq: "quotient_of x = (p, q)" by (cases "quotient_of x")
  then have q: "0 < q" using quotient_of_denom_pos by blast
  have x: "x = of_int p / of_int q" using pq quotient_of_div by blast
  have p: "0 < p" using assms q x by (simp add: zero_less_divide_iff)
  define bp where "bp = bitlen p"
  define bq where "bq = bitlen q"
  have bp1: "1 \<le> bp" using p bitlen_eq_zero_iff[of p] bitlen_nonneg[of p] unfolding bp_def by linarith
  have bq1: "1 \<le> bq" using q bitlen_eq_zero_iff[of q] bitlen_nonneg[of q] unfolding bq_def by linarith
  have P: "(2::rat) powi (bp - 1) \<le> of_int p \<and> of_int p < (2::rat) powi bp"
  proof -
    have "2 ^ nat (bp - 1) \<le> p \<and> p < 2 ^ nat bp" using bitlen_bounds[OF p] bp_def by simp
    then have "(of_int (2 ^ nat (bp - 1)) :: rat) \<le> of_int p \<and> (of_int p :: rat) < of_int (2 ^ nat bp)"
      by (metis of_int_le_iff of_int_less_iff)
    then show ?thesis using bp1 by (simp add: power_int_def)
  qed
  have Q: "(2::rat) powi (bq - 1) \<le> of_int q \<and> of_int q < (2::rat) powi bq"
  proof -
    have "2 ^ nat (bq - 1) \<le> q \<and> q < 2 ^ nat bq" using bitlen_bounds[OF q] bq_def by simp
    then have "(of_int (2 ^ nat (bq - 1)) :: rat) \<le> of_int q \<and> (of_int q :: rat) < of_int (2 ^ nat bq)"
      by (metis of_int_le_iff of_int_less_iff)
    then show ?thesis using bq1 by (simp add: power_int_def)
  qed
  have qpos: "(0::rat) < of_int q" using q by simp
  have lo: "(2::rat) powi (bp - bq - 1) < x"
  proof -
    have "(2::rat) powi (bp - bq - 1) * of_int q < 2 powi (bp - bq - 1) * 2 powi bq"
      using Q by (simp)
    also have "\<dots> = 2 powi (bp - 1)" by (simp add: power_int_add[symmetric])
    also have "\<dots> \<le> of_int p" using P by simp
    finally show ?thesis using qpos x by (simp add: pos_less_divide_eq)
  qed
  have hi: "x < (2::rat) powi (bp - bq + 1)"
  proof -
    have "of_int p < (2::rat) powi bp" using P by simp
    also have "\<dots> = 2 powi (bp - bq + 1) * 2 powi (bq - 1)" by (simp add: power_int_add[symmetric])
    also have "\<dots> \<le> 2 powi (bp - bq + 1) * of_int q" using Q by simp
    finally show ?thesis using qpos x by (simp add: pos_divide_less_eq)
  qed
  show ?thesis
  proof (cases "2 powi (bp - bq) \<le> x")
    case True
    then have "ilog2 x = bp - bq" by (simp add: ilog2_def pq bp_def bq_def)
    then show ?thesis using True hi by simp
  next
    case False
    then have "ilog2 x = bp - bq - 1" by (simp add: ilog2_def pq bp_def bq_def)
    then show ?thesis using False lo by simp
  qed
qed

lemma RoundToEven_gt: "of_int z + 1 / 2 < y \<Longrightarrow> z < RoundToEven y"
  unfolding RoundToEven_def Let_def by (auto; linarith)

lemma RoundToEven_le: "y < of_int z + 1 / 2 \<Longrightarrow> RoundToEven y \<le> z"
  unfolding RoundToEven_def Let_def by (auto; linarith)

lemma RoundToEven_of_int: "RoundToEven (of_int z) = z"
  unfolding RoundToEven_def Let_def by simp


lemma float64_of_int:
  assumes "0 \<le> n" "n < 2 ^ 53"
  shows "float64 (of_int n) = of_int n"
proof (cases "n = 0")
  case True
  then show ?thesis by (simp add: float64_def)
next
  case False
  define x :: rat where "x = of_int n"
  have xpos: "0 < x" using assms False by (simp add: x_def)
  define e where "e = ilog2 x"
  have b: "2 powi e \<le> x \<and> x < 2 powi (e + 1)" using ilog2_bounds[OF xpos] e_def by simp
  have "x < 2 powi 53" using assms(2) unfolding x_def
    by (metis of_int_less_iff of_int_numeral of_int_power power_int_numeral)
  then have "(2::rat) powi e < 2 powi 53" using b by linarith
  note lt = this
  have e52: "e \<le> 52"
  proof (rule ccontr)
    assume "\<not> e \<le> 52"
    then have "53 \<le> e" by simp
    then have "(2::rat) powi 53 \<le> 2 powi e" by (rule power_int_increasing) simp
    with \<open>(2::rat) powi e < 2 powi 53\<close> show False by linarith
  qed
  define k where "k = nat (52 - e)"
  have u: "(2::rat) powi (e - 52) = 1 / 2 ^ k"
    using e52 unfolding k_def by (simp add: power_int_def field_simps)
  have "x / (1 / 2 ^ k) = of_int (n * 2 ^ k)" by (simp add: x_def)
  then have "RoundToEven (x / (1 / 2 ^ k)) = n * 2 ^ k" using RoundToEven_of_int by metis
  then have "float64 x = of_int (n * 2 ^ k) * (1 / 2 ^ k)"
    using xpos u by (simp add: float64_def e_def Let_def)
  then show ?thesis by (simp add: x_def)
qed

lemma float64_cmp:
  assumes xpos: "0 < x" and x52: "x < 2 ^ 52"
  shows "of_int L + 2 powi (ilog2 x - 53) < x \<Longrightarrow> of_int L < float64 x"
    and "x < of_int L + 2 powi (ilog2 x - 53) \<Longrightarrow> float64 x \<le> of_int L"
proof -
  define e where "e = ilog2 x"
  have b: "2 powi e \<le> x \<and> x < 2 powi (e + 1)" using ilog2_bounds[OF xpos] e_def by simp
  have "x < 2 powi 52" using x52 by simp
  then have "(2::rat) powi e < 2 powi 52" using b by linarith
  have e52: "e < 52"
  proof (rule ccontr)
    assume "\<not> e < 52"
    then have "52 \<le> e" by simp
    then have "(2::rat) powi 52 \<le> 2 powi e" by (rule power_int_increasing) simp
    with \<open>(2::rat) powi e < 2 powi 52\<close> show False by linarith
  qed
  define k where "k = nat (52 - e)"
  have k1: "1 \<le> k" using e52 k_def by simp
  have u: "(2::rat) powi (e - 52) = 1 / 2 ^ k"
    using e52 unfolding k_def by (simp add: power_int_def field_simps)
  have "nat (53 - e) = Suc k" using e52 unfolding k_def by simp
  then have h: "(2::rat) powi (e - 53) = 1 / 2 ^ (k + 1)"
    using e52 by (simp add: power_int_def field_simps)
  define P :: rat where "P = 2 ^ k"
  have pk: "0 < P" by (simp add: P_def)
  have Pint: "of_int L * P = of_int (L * 2 ^ k)" by (simp add: P_def)
  have h': "(2::rat) powi (ilog2 x - 53) = 1 / (2 * P)" using h by (simp add: P_def e_def)
  have fl: "float64 x = of_int (RoundToEven (x * P)) / P"
    using xpos u by (simp add: float64_def e_def Let_def P_def)
  have half: "(of_int L + 1 / (2 * P)) * P = of_int L * P + 1 / 2"
    using pk by (simp add: field_simps)
  {
    assume "of_int L + 2 powi (ilog2 x - 53) < x"
    then have "of_int L + 1 / (2 * P) < x" using h' by simp
    then have "(of_int L + 1 / (2 * P)) * P < x * P" using pk by (rule mult_strict_right_mono)
    then have "of_int (L * 2 ^ k) + 1 / 2 < x * P" by (simp only: half Pint)
    then have "L * 2 ^ k < RoundToEven (x * P)" by (rule RoundToEven_gt)
    then have "(of_int (L * 2 ^ k) :: rat) < of_int (RoundToEven (x * P))" by (simp only: of_int_less_iff)
    then have "of_int L * P < of_int (RoundToEven (x * P))" by (simp only: Pint)
    then show "of_int L < float64 x" using fl pk by (simp add: pos_less_divide_eq)
  }
  {
    assume "x < of_int L + 2 powi (ilog2 x - 53)"
    then have "x < of_int L + 1 / (2 * P)" using h' by simp
    then have "x * P < (of_int L + 1 / (2 * P)) * P" using pk by (rule mult_strict_right_mono)
    then have "x * P < of_int (L * 2 ^ k) + 1 / 2" by (simp only: half Pint)
    then have "RoundToEven (x * P) \<le> L * 2 ^ k" by (rule RoundToEven_le)
    then have "(of_int (RoundToEven (x * P)) :: rat) \<le> of_int (L * 2 ^ k)" by (simp only: of_int_le_iff)
    then have "of_int (RoundToEven (x * P)) \<le> of_int L * P" by (simp only: Pint)
    then show "float64 x \<le> of_int L" using fl pk by (simp add: pos_divide_le_eq)
  }
qed

lemma float64_two_fifths: "float64 (2 / 5) = 3602879701896397 / 9007199254740992"
  by code_simp


lemma wrap64_add: "wrap64 (wrap64 a + v) = wrap64 (a + v)"
  unfolding wrap64_def by (simp add: mod_simps ac_simps)

lemma wrap64_id: "- (2 ^ 63) \<le> x \<Longrightarrow> x < 2 ^ 63 \<Longrightarrow> wrap64 x = x"
  unfolding wrap64_def by simp

lemma fold_wrap64:
  "fold (\<lambda>(k, v) t. wrap64 (t + v)) m (wrap64 a) = wrap64 (a + sum_list (map snd m))"
proof (induction m arbitrary: a)
  case Nil
  then show ?case by simp
next
  case (Cons kv m)
  obtain k v where kv: "kv = (k, v)" by (cases kv)
  have "fold (\<lambda>(k, v) t. wrap64 (t + v)) (kv # m) (wrap64 a)
        = fold (\<lambda>(k, v) t. wrap64 (t + v)) m (wrap64 (a + v))"
    by (simp add: kv wrap64_add)
  also have "\<dots> = wrap64 (a + v + sum_list (map snd m))" by (rule Cons.IH)
  finally show ?case by (simp add: kv add.assoc)
qed

lemma float64_product_cmp:
  fixes T L :: int
  assumes T20: "20 \<le> T" and T52: "T < 2 ^ 52" and L0: "0 \<le> L"
  shows "(of_int L < float64 (of_int T * (3602879701896397 / 9007199254740992))) = (5 * L < 2 * T)"
proof -
  define x :: rat where "x = of_int T * (3602879701896397 / 9007199254740992)"
  have xeq: "x = of_int (2 * T) / 5 + of_int T / 45035996273704960"
    unfolding x_def by (simp add: field_simps)
  have Tpos: "(0::rat) < of_int T" using T20 by simp
  have xpos: "0 < x" unfolding x_def using Tpos by simp
  have Tr: "(of_int T :: rat) < 2 ^ 52" using T52
    by (metis of_int_less_iff of_int_numeral of_int_power)
  have x51: "x < 2 ^ 51" unfolding xeq using Tr by simp
  then have x52: "x < 2 ^ 52" by simp
  define e where "e = ilog2 x"
  have b: "2 powi e \<le> x \<and> x < 2 powi (e + 1)" using ilog2_bounds[OF xpos] e_def by simp
  have "(2::rat) powi e < 2 powi 51" using b x51 by simp
  have e51: "e < 51"
  proof (rule ccontr)
    assume "\<not> e < 51"
    then have "51 \<le> e" by simp
    then have "(2::rat) powi 51 \<le> 2 powi e" by (rule power_int_increasing) simp
    with \<open>(2::rat) powi e < 2 powi 51\<close> show False by linarith
  qed
  have "e - 53 \<le> - 3" using e51 by simp
  then have "(2::rat) powi (e - 53) \<le> 2 powi (- 3)" by (rule power_int_increasing) simp
  then have hsmall: "(2::rat) powi (e - 53) \<le> 1 / 8" by (simp add: power_int_minus field_simps)
  have eq: "e + 1 = e - 53 + 54" by simp
  have "(2::rat) powi (e + 1) = 2 powi (e - 53) * 2 powi 54"
    unfolding eq by (rule power_int_add) simp
  then have "(2::rat) powi (e + 1) = 2 powi (e - 53) * 18014398509481984" by simp
  then have hbig: "x / 18014398509481984 < (2::rat) powi (e - 53)"
    using b by (simp add: field_simps)
  show ?thesis
  proof (cases "5 * L < 2 * T")
    case True
    then have "5 * L + 1 \<le> 2 * T" by simp
    then have "(of_int (5 * L + 1) :: rat) \<le> of_int (2 * T)" by (simp only: of_int_le_iff)
    then have "of_int L + 1 / 5 \<le> x" unfolding xeq using Tpos by (simp add: field_simps)
    then have "of_int L + 2 powi (ilog2 x - 53) < x" using hsmall e_def by simp
    then have "of_int L < float64 x" by (rule float64_cmp(1)[OF xpos x52])
    then show ?thesis using True by (simp add: x_def)
  next
    case False
    then have "2 * T \<le> 5 * L" by simp
    then have "(of_int (2 * T) :: rat) \<le> of_int (5 * L)" by (simp only: of_int_le_iff)
    then have "x \<le> of_int L + of_int T / 45035996273704960" unfolding xeq by simp
    moreover have "of_int T / 45035996273704960 < x / 18014398509481984"
      unfolding xeq using Tpos by (simp add: field_simps)
    ultimately have "x < of_int L + 2 powi (ilog2 x - 53)" using hbig e_def by simp
    then have "float64 x \<le> of_int L" by (rule float64_cmp(2)[OF xpos x52])
    then show ?thesis using False by (simp add: x_def)
  qed
qed

subsection \<open>isAnchor\<close>

lemma isAnchor_int:
  assumes "- (2 ^ 63) \<le> sum_list (map snd m)" and "sum_list (map snd m) < 2 ^ 52"
    and "length m < 2 ^ 52"
  shows "isAnchor m = (sum_list (map snd m) < 20 \<or> 5 * int (length m) < 2 * sum_list (map snd m))"
proof -
  define T where "T = sum_list (map snd m)"
  have "fold (\<lambda>(k, v) t. wrap64 (t + v)) m (wrap64 0) = wrap64 (0 + T)"
    unfolding T_def by (rule fold_wrap64)
  moreover have "wrap64 0 = 0" by (simp add: wrap64_def)
  moreover have "wrap64 T = T" using assms unfolding T_def by (intro wrap64_id) simp_all
  ultimately have total: "fold (\<lambda>(k, v) t. wrap64 (t + v)) m 0 = T" by simp
  show ?thesis
  proof (cases "T < 20")
    case True
    then show ?thesis using total by (simp add: isAnchor_def T_def[symmetric])
  next
    case False
    then have T20: "20 \<le> T" by simp
    have T52: "T < 2 ^ 52" using assms(2) T_def by simp
    have fT: "float64 (of_int T) = of_int T" using T20 T52 by (intro float64_of_int) simp_all
    have "int (length m) < 2 ^ 53" using assms(3) by simp
    then have "float64 (of_int (int (length m))) = of_int (int (length m))"
      by (intro float64_of_int) simp_all
    then have fL: "float64 (of_nat (length m)) = of_int (int (length m))" by simp
    have "(of_int (int (length m)) < float64 (of_int T * (3602879701896397 / 9007199254740992)))
          = (5 * int (length m) < 2 * T)"
      using T20 T52 by (intro float64_product_cmp) simp_all
    then show ?thesis using False total fT fL
      by (simp add: isAnchor_def T_def[symmetric] float64_two_fifths)
  qed
qed

text \<open>
  C1. A histogram is a map from the values of a field to their counts: one entry per value.
  With \<open>total\<close> the sum of the counts, \<open>isAnchor\<close> is true when \<open>total < 20\<close>, and otherwise
  exactly when \<open>total * 0.40\<close> exceeds the number of distinct values; so it is false exactly
  when \<open>total \<ge> 20\<close> and the number of distinct values is at least \<open>0.4 * total\<close>. The sum
  and the product are those of the integers and the rationals: the theorem is for the
  histograms whose total fits an \<open>int\<close> and lies below \<open>2^52\<close> and that have fewer than \<open>2^52\<close>
  entries, where the \<open>int\<close> sum does not wrap and the rounding of the \<open>float64\<close> product does
  not change the comparison.
\<close>

theorem isAnchor_threshold:
  assumes "distinct (map fst m)"
    and "- (2 ^ 63) \<le> sum_list (map snd m)" and "sum_list (map snd m) < 2 ^ 52"
    and "length m < 2 ^ 52"
  shows "isAnchor m =
           (sum_list (map snd m) < 20
            \<or> rat_of_nat (card (fst ` set m)) < rat_of_int (sum_list (map snd m)) * (2 / 5))"
proof -
  have "card (fst ` set m) = length m"
    using assms(1) distinct_card[of "map fst m"] by simp
  moreover have "(rat_of_nat (length m) < rat_of_int (sum_list (map snd m)) * (2 / 5))
                 = (5 * int (length m) < 2 * sum_list (map snd m))"
  proof -
    have "(rat_of_nat (length m) < rat_of_int (sum_list (map snd m)) * (2 / 5))
          = (rat_of_int (5 * int (length m)) < rat_of_int (2 * sum_list (map snd m)))"
      by (simp add: field_simps)
    then show ?thesis by (simp only: of_int_less_iff)
  qed
  ultimately show ?thesis using isAnchor_int[OF assms(2-4)] by simp
qed

theorem isAnchor_threshold_witness:
  "isAnchor [(''A+'', 20), (''B+'', 10)]
   \<and> \<not> isAnchor [(''a'', 3), (''b'', 3), (''c'', 3), (''d'', 3), (''e'', 2), (''f'', 2), (''g'', 2), (''h'', 2)]
   \<and> isAnchor [(''a'', 1), (''b'', 1), (''c'', 1)]"
  using isAnchor_threshold [of "[(''A+'', 20), (''B+'', 10)]"]
    isAnchor_threshold [of "[(''a'', 3), (''b'', 3), (''c'', 3), (''d'', 3), (''e'', 2), (''f'', 2), (''g'', 2), (''h'', 2)]"]
    isAnchor_threshold [of "[(''a'', 1), (''b'', 1), (''c'', 1)]"]
  by simp

subsection \<open>flatten on scalars\<close>

text \<open>
  C8. For a JSON scalar, \<open>flatten\<close> is the map with the single key \<open>""\<close> and a one-element
  list: \<open>true\<close> or \<open>false\<close> for a boolean, \<open>strconv.FormatFloat(x, 'E', -1, 64)\<close> for a number
  (scientific notation, as many digits as it takes to tell the 64-bit float from every
  other), the string itself for a string; \<open>nil\<close> (JSON null) gives \<open>{"": [""]}\<close>.
\<close>

theorem flatten_scalar:
  "flatten ff JNull = [('''', [''''])]
   \<and> flatten ff (JBool True) = [('''', [''true''])]
   \<and> flatten ff (JBool False) = [('''', [''false''])]
   \<and> flatten ff (JNumber x) = [('''', [ff x CHR ''E'' (- 1) 64])]
   \<and> flatten ff (JString s) = [('''', [s])]"
  by simp

theorem flatten_scalar_witness:
  "flatten (\<lambda>(x::int) f p b. ''1E+00'') (JNumber 1) = [('''', [''1E+00''])]
   \<and> flatten (\<lambda>(x::int) f p b. ''1E+00'') (JString ''bob'') = [('''', [''bob''])]
   \<and> flatten (\<lambda>(x::int) f p b. ''1E+00'') JNull = [('''', [''''])]"
  using flatten_scalar [of "\<lambda>(x::int) f p b. ''1E+00''" 1 "''bob''"]
  by simp

subsection \<open>DeNoise\<close>












subsection \<open>Test\<close>

lemma test_loaded:
  assumes "tdb_Get db (calls r) cid tid = Inr tc"
    and "test L db r cid tid app resp = (r1, ok, res, tco, err)"
  shows "r1 = called (TdbGet cid tid) r \<and> tco = Some tc \<and> res \<noteq> None \<and> (err \<noteq> None \<longrightarrow> \<not> ok)"
  using assms
  by (auto simp: test_def Let_def split: prod.splits option.splits if_splits)

lemma test_verdict:
  assumes "tdb_Get db (calls r) cid tid = Inr tc"
    and "test L db r cid tid app resp = (r1, ok, res, tco, err)"
  shows "ok =
          ((if \<not> Contains L (Noise tc) ''body'' \<and> Valid L (RespBody resp)
            then Match L (RespBody (HttpResp tc)) (RespBody resp)
                   (fst (fold noise_step (Noise tc) ([], []))) = (True, None)
            else Contains L (Noise tc) ''body'' \<or> RespBody (HttpResp tc) = RespBody resp)
           \<and> snd (CompareHeaders L (RespHeader (HttpResp tc)) (RespHeader resp)
                   (snd (fold noise_step (Noise tc) ([], []))))
           \<and> StatusCode (HttpResp tc) = StatusCode resp)"
  using assms
  by (auto simp: test_def Let_def split: prod.splits option.splits if_splits)

lemma saveResult_calls:
  "\<exists>cs. calls (fst (saveResult db r t)) = calls r @ RdbPutTest t # cs"
  by (auto simp: saveResult_def called_def Let_def split: option.splits)

text \<open>
  C3, amended. When the stored test case loads, \<open>Test\<close> returns the verdict \<open>ok\<close> of \<open>test\<close>
  with a \<open>nil\<close> error, whatever the stores do afterwards: \<open>(true, nil)\<close> when the body passes
  (\<open>pkg.Match\<close> without an error on a JSON body, equal texts otherwise, or \<open>body\<close> is noise),
  the headers pass \<open>pkg.CompareHeaders\<close> and the status codes are equal, \<open>(false, nil)\<close>
  otherwise, also when \<open>pkg.Match\<close> reports an error. Right after reading the test case it
  hands \<open>PutTest\<close> a record for this run, test case and response, with status \<open>Passed\<close> when
  \<open>ok\<close> and \<open>Failed\<close> otherwise.
\<close>

theorem Test_result:
  assumes "tdb_Get db (calls r) cid tid = Inr tc"
    and "test L db r cid tid app resp = (r1, ok, res, tco, err)"
  shows "snd (Test L db r started completed uuid cid app runID tid resp) = Return (ok, None)
     \<and> ok =
          ((if \<not> Contains L (Noise tc) ''body'' \<and> Valid L (RespBody resp)
            then Match L (RespBody (HttpResp tc)) (RespBody resp)
                   (fst (fold noise_step (Noise tc) ([], []))) = (True, None)
            else Contains L (Noise tc) ''body'' \<or> RespBody (HttpResp tc) = RespBody resp)
           \<and> snd (CompareHeaders L (RespHeader (HttpResp tc)) (RespHeader resp)
                   (snd (fold noise_step (Noise tc) ([], []))))
           \<and> StatusCode (HttpResp tc) = StatusCode resp)
     \<and> (\<exists>t cs. calls (fst (Test L db r started completed uuid cid app runID tid resp))
                 = calls r @ TdbGet cid tid # RdbPutTest t # cs
               \<and> Status t = (if ok then TestStatusPassed else TestStatusFailed)
               \<and> RunID t = runID \<and> TestCaseID t = tid \<and> Resp t = resp)"
proof -
  from test_loaded[OF assms] obtain rs where
    r1: "r1 = called (TdbGet cid tid) r" and tco: "tco = Some tc" and res: "res = Some rs"
    and e: "err \<noteq> None \<longrightarrow> \<not> ok"
    by auto
  define t0 where "t0 = \<lparr>TestID = uuid, Started = started, Completed = completed, RunID = runID,
                    TestCaseID = tid, TestURI = URI tc, Req = HttpReq tc, Dep = Deps tc,
                    Resp = resp, TestResult = rs, TestNoise = Noise tc,
                    Status = (if ok then TestStatusPassed else TestStatusFailed)\<rparr>"
  have T: "Test L db r started completed uuid cid app runID tid resp
           = (fst (saveResult db r1 t0), Return (ok, None))"
    using assms(2) unfolding Test_def t0_def tco res by (simp add: Let_def)
  obtain cs where "calls (fst (saveResult db r1 t0)) = calls r1 @ RdbPutTest t0 # cs"
    using saveResult_calls by blast
  then have "calls (fst (Test L db r started completed uuid cid app runID tid resp))
             = calls r @ TdbGet cid tid # RdbPutTest t0 # cs"
    using T r1 by (simp add: called_def)
  moreover have "Status t0 = (if ok then TestStatusPassed else TestStatusFailed)
                 \<and> RunID t0 = runID \<and> TestCaseID t0 = tid \<and> Resp t0 = resp"
    by (simp add: t0_def)
  ultimately show ?thesis using T test_verdict[OF assms] by auto
qed

text \<open>
  C3 as stated fails. With a run database that refuses \<open>PutTest\<close>, \<open>Test\<close> makes the call,
  the call fails, and \<open>Test\<close> returns \<open>(true, nil)\<close>: a store failure gives no error. And for
  a test case the store cannot find, \<open>Test\<close> panics after the one call to \<open>Get\<close>: no error is
  returned and no record is handed to \<open>PutTest\<close>.
\<close>

theorem Test_error_counterexample:
  "Test ex_lib ex_store_down ex_regression 100 101 ''id-1'' ''cid'' ''app'' ''run-1'' ''tc-1'' ex_resp
     = (ex_regression\<lparr>calls :=
          [TdbGet ''cid'' ''tc-1'',
           RdbPutTest
             \<lparr>TestID = ''id-1'', Started = 100, Completed = 101, RunID = ''run-1'',
              TestCaseID = ''tc-1'', TestURI = ''/b10aliens'', Req = ex_req, Dep = [],
              Resp = ex_resp,
              TestResult =
                \<lparr>ResStatusCode = \<lparr>IntNormal = True, IntExpected = 200, IntActual = 200\<rparr>,
                 ResBodyResult =
                   \<lparr>BodyNormal = True, BodyTyp = BodyTypeJSON, BodyExpected = ex_expected,
                    BodyActual = ex_expected\<rparr>,
                 HeadersResult = []\<rparr>,
              TestNoise = [''header.Date''], Status = TestStatusPassed\<rparr>]\<rparr>,
        Return (True, None))
   \<and> rdb_PutTest ex_store_down [TdbGet ''cid'' ''tc-1'']
        \<lparr>TestID = ''id-1'', Started = 100, Completed = 101, RunID = ''run-1'',
         TestCaseID = ''tc-1'', TestURI = ''/b10aliens'', Req = ex_req, Dep = [],
         Resp = ex_resp,
         TestResult =
           \<lparr>ResStatusCode = \<lparr>IntNormal = True, IntExpected = 200, IntActual = 200\<rparr>,
            ResBodyResult =
              \<lparr>BodyNormal = True, BodyTyp = BodyTypeJSON, BodyExpected = ex_expected,
               BodyActual = ex_expected\<rparr>,
            HeadersResult = []\<rparr>,
         TestNoise = [''header.Date''], Status = TestStatusPassed\<rparr>
       = Some (Error ''connection refused'')
   \<and> tdb_Get ex_store [] ''cid'' ''tc-9'' = Inl (Error ''no documents in result'')
   \<and> Test ex_lib ex_store ex_regression 100 101 ''id-1'' ''cid'' ''app'' ''run-1'' ''tc-9'' ex_resp
     = (ex_regression\<lparr>calls := [TdbGet ''cid'' ''tc-9'']\<rparr>, Panic)"
  by (simp add: Test_def test_def ex_store_down_def ex_store_def ex_lib_def ex_tc_def ex_resp_def
      ex_regression_def called_def saveResult_def Let_def ex_Match_def ex_CompareHeaders_def
      noise_step_def ex_expected_def ex_observed_def ex_tags_def quoted_def)

theorem Test_result_witness:
  "snd (Test ex_lib ex_store ex_regression 100 101 ''id-1'' ''cid'' ''app'' ''run-1'' ''tc-1'' ex_resp)
     = Return (True, None)
   \<and> snd (Test ex_lib ex_store ex_regression 100 101 ''id-1'' ''cid'' ''app'' ''run-1'' ''tc-1''
        (ex_resp\<lparr>StatusCode := 500\<rparr>))
     = Return (False, None)"
proof -
  have 1: "tdb_Get ex_store (calls ex_regression) ''cid'' ''tc-1'' = Inr ex_tc"
    by (simp add: ex_store_def)
  have 2: "fst (snd (test ex_lib ex_store ex_regression ''cid'' ''tc-1'' ''app'' ex_resp)) = True"
    by (simp add: test_def ex_store_def ex_lib_def ex_tc_def ex_resp_def ex_regression_def
      called_def Let_def ex_Match_def ex_CompareHeaders_def noise_step_def
      ex_expected_def ex_observed_def ex_tags_def quoted_def)
  have 3: "fst (snd (test ex_lib ex_store ex_regression ''cid'' ''tc-1'' ''app'' (ex_resp\<lparr>StatusCode := 500\<rparr>))) = False"
    by (simp add: test_def ex_store_def ex_lib_def ex_tc_def ex_resp_def ex_regression_def
      called_def Let_def ex_Match_def ex_CompareHeaders_def noise_step_def
      ex_expected_def ex_observed_def ex_tags_def quoted_def)
  obtain r1 ok res tco err where
    a: "test ex_lib ex_store ex_regression ''cid'' ''tc-1'' ''app'' ex_resp = (r1, ok, res, tco, err)"
    by (metis prod_cases5)
  obtain r1' ok' res' tco' err' where
    b: "test ex_lib ex_store ex_regression ''cid'' ''tc-1'' ''app'' (ex_resp\<lparr>StatusCode := 500\<rparr>)
        = (r1', ok', res', tco', err')"
    by (metis prod_cases5)
  show ?thesis
    using Test_result [OF 1 a, of 100 101 "''id-1''" "''run-1''"]
      Test_result [OF 1 b, of 100 101 "''id-1''" "''run-1''"] 2 3 a b
    by simp
qed

subsection \<open>isDup, putTC and Put\<close>

subsection \<open>What isDup leaves alone\<close>

lemma anchor_step_frame:
  assumes "anchor_step index h e (r, fk, ch) = (r', fk', ch')"
  shows "calls r' = calls r \<and> EnableDeDup r' = EnableDeDup r \<and> anchors r' = anchors r"
  using assms
  by (cases e) (auto simp: anchor_step_def Let_def split: if_splits)

lemma anchor_fold_frame:
  assumes "fold (anchor_step index h) xs (r, fk, ch) = (r', fk', ch')"
  shows "calls r' = calls r \<and> EnableDeDup r' = EnableDeDup r \<and> anchors r' = anchors r"
  using assms
proof (induction xs arbitrary: r fk ch)
  case Nil
  then show ?case by simp
next
  case (Cons e xs)
  obtain r1 fk1 ch1 where s: "anchor_step index h e (r, fk, ch) = (r1, fk1, ch1)"
    by (metis prod_cases3)
  have "fold (anchor_step index h) xs (r1, fk1, ch1) = (r', fk', ch')"
    using Cons.prems s by simp
  then show ?case using Cons.IH anchor_step_frame[OF s] by metis
qed

lemma anchor_step_sub:
  assumes "anchor_step index h e (r, fk, ch) = (r', fk', ch')"
    and "\<forall>k a. map_of fk k = Some a \<longrightarrow> (k, a) \<in> S"
    and "e \<in> S"
  shows "\<forall>k a. map_of fk' k = Some a \<longrightarrow> (k, a) \<in> S"
  using assms
  by (cases e) (auto simp: anchor_step_def Let_def update_Some_unfold split: if_splits)

lemma anchor_fold_sub:
  assumes "fold (anchor_step index h) xs (r, fk, ch) = (r', fk', ch')"
    and "\<forall>k a. map_of fk k = Some a \<longrightarrow> (k, a) \<in> S"
    and "set xs \<subseteq> S"
  shows "\<forall>k a. map_of fk' k = Some a \<longrightarrow> (k, a) \<in> S"
  using assms
proof (induction xs arbitrary: r fk ch)
  case Nil
  then show ?case by simp
next
  case (Cons e xs)
  obtain r1 fk1 ch1 where s: "anchor_step index h e (r, fk, ch) = (r1, fk1, ch1)"
    by (metis prod_cases3)
  have f: "fold (anchor_step index h) xs (r1, fk1, ch1) = (r', fk', ch')"
    using Cons.prems s by simp
  have e: "e \<in> S" and xs: "set xs \<subseteq> S" using Cons.prems(3) by auto
  show ?case using Cons.IH[OF f anchor_step_sub[OF s Cons.prems(2) e] xs] .
qed

lemma anchor_step_distinct:
  assumes "anchor_step index h e (r, fk, ch) = (r', fk', ch')" and "distinct (map fst fk)"
  shows "distinct (map fst fk')"
  using assms
  by (cases e) (auto simp: anchor_step_def Let_def distinct_update split: if_splits)

lemma anchor_fold_distinct:
  assumes "fold (anchor_step index h) xs (r, fk, ch) = (r', fk', ch')" and "distinct (map fst fk)"
  shows "distinct (map fst fk')"
  using assms
proof (induction xs arbitrary: r fk ch)
  case Nil
  then show ?case by simp
next
  case (Cons e xs)
  obtain r1 fk1 ch1 where s: "anchor_step index h e (r, fk, ch) = (r1, fk1, ch1)"
    by (metis prod_cases3)
  have f: "fold (anchor_step index h) xs (r1, fk1, ch1) = (r', fk', ch')"
    using Cons.prems s by simp
  show ?case using Cons.IH[OF f anchor_step_distinct[OF s Cons.prems(2)]] .
qed

subsection \<open>The request keys\<close>

lemma set_update_subset: "set (AList.update k v al) \<subseteq> insert (k, v) (set al)"
  by (induct al) auto

lemma put_slice_wf:
  assumes "wf_keys st"
  shows "wf_keys (put_slice k v st)"
proof -
  obtain m h where st: "st = (m, h)" by (cases st)
  have d: "distinct (map fst m)" and b: "\<forall>(k, a) \<in> set m. a < length h"
    using assms by (auto simp: wf_keys_def st)
  have "\<forall>(k', a) \<in> set (AList.update k (length h) m). a < length (h @ [v])"
  proof safe
    fix k' a
    assume "(k', a) \<in> set (AList.update k (length h) m)"
    then have "(k', a) \<in> insert (k, length h) (set m)"
      using set_update_subset by fastforce
    then show "a < length (h @ [v])" using b by auto
  qed
  then show ?thesis using d by (simp add: wf_keys_def st put_slice_def distinct_update)
qed

lemma fold_put_slice_wf:
  "wf_keys st \<Longrightarrow> wf_keys (fold (\<lambda>(k, v). put_slice (f k) (g v)) xs st)"
proof (induction xs arbitrary: st)
  case Nil
  then show ?case by simp
next
  case (Cons e xs)
  obtain k v where e: "e = (k, v)" by (cases e)
  show ?case using Cons.IH[OF put_slice_wf[OF Cons.prems, of "f k" "g v"]] by (simp add: e)
qed

lemma req_keys_wf:
  assumes "req_keys L q = Inr st"
  shows "wf_keys st"
proof -
  have 0: "wf_keys ([], [])" by (simp add: wf_keys_def)
  have 1: "wf_keys (fold (\<lambda>(k, v). put_slice (''header.'' @ k) [concat v]) (ReqHeader q) ([], []))"
    using fold_put_slice_wf[OF 0, of "\<lambda>k. ''header.'' @ k" "\<lambda>v. [concat v]"] by simp
  have 2: "wf_keys (fold (\<lambda>(k, v). put_slice (''url_params.'' @ k) [v]) (URLParams q)
              (fold (\<lambda>(k, v). put_slice (''header.'' @ k) [concat v]) (ReqHeader q) ([], [])))"
    using fold_put_slice_wf[OF 1, of "\<lambda>k. ''url_params.'' @ k" "\<lambda>v. [v]"] by simp
  show ?thesis
    using assms 2 fold_put_slice_wf[OF 2, of body_key "\<lambda>v. v"]
    by (auto simp: req_keys_def Let_def split: if_splits sum.splits)
qed

lemma map_of_deref: "map_of (deref h m) k = map_option (\<lambda>a. h ! a) (map_of m k)"
  unfolding deref_def by (induction m) auto

subsection \<open>Sorting in place\<close>

lemma sort_slices_length: "length (sort_slices m h) = length h"
  unfolding sort_slices_def by (induction m arbitrary: h) auto

lemma sort_slices_nth:
  "a < length h \<Longrightarrow>
   sort_slices m h ! a = (if a \<in> snd ` set m then sort (h ! a) else h ! a)"
proof (induction m arbitrary: h)
  case Nil
  then show ?case by (simp add: sort_slices_def)
next
  case (Cons e m)
  obtain k b where e: "e = (k, b)" by (cases e)
  define h1 where "h1 = h[b := sort (h ! b)]"
  have s: "sort_slices ((k, b) # m) h = sort_slices m h1"
    by (simp add: sort_slices_def h1_def)
  have l: "a < length h1" using Cons.prems by (simp add: h1_def)
  have n: "h1 ! a = (if a = b then sort (h ! a) else h ! a)"
    using Cons.prems by (simp add: h1_def)
  have "sort (sort (h ! a)) = sort (h ! a)" by (simp add: sorted_sort_id)
  then have "sort_slices m h1 ! a = (if a = b \<or> a \<in> snd ` set m then sort (h ! a) else h ! a)"
    using Cons.IH[OF l] n by auto
  then show ?case by (simp add: e s)
qed

lemma deref_sort_slices:
  assumes "\<forall>(k, a) \<in> set m. a < length h"
  shows "deref (sort_slices m h) m = map (\<lambda>(k, v). (k, sort v)) (deref h m)"
proof -
  have "\<And>k a. (k, a) \<in> set m \<Longrightarrow> sort_slices m h ! a = sort (h ! a)"
  proof -
    fix k a
    assume ka: "(k, a) \<in> set m"
    then have "a < length h" using assms by auto
    moreover have "a \<in> snd ` set m" using ka by force
    ultimately show "sort_slices m h ! a = sort (h ! a)" by (simp add: sort_slices_nth)
  qed
  then show ?thesis unfolding deref_def by auto
qed

subsection \<open>fillCache and isDup\<close>

lemma fillCache_frame:
  assumes "fillCache db r t = (r1, res)"
  shows "EnableDeDup r1 = EnableDeDup r
         \<and> (calls r1 = calls r \<or> calls r1 = calls r @ [TdbGetKeys (CID t) (AppID t) (URI t)])"
  using assms
  by (auto simp: fillCache_def Let_def called_def split: if_splits sum.splits prod.splits)

lemma anchor_step_change:
  assumes "anchor_step index h e (r, fk, True) = (r', fk', ch')"
  shows "ch'"
  using assms
  by (cases e) (auto simp: anchor_step_def Let_def split: if_splits)

lemma anchor_fold_change:
  assumes "fold (anchor_step index h) xs (r, fk, True) = (r', fk', ch')"
  shows "ch'"
  using assms
proof (induction xs arbitrary: r fk)
  case Nil
  then show ?case by simp
next
  case (Cons e xs)
  obtain r1 fk1 ch1 where s: "anchor_step index h e (r, fk, True) = (r1, fk1, ch1)"
    by (metis prod_cases3)
  have c: "ch1" using anchor_step_change[OF s] .
  have "fold (anchor_step index h) xs (r1, fk1, True) = (r', fk', ch')"
    using Cons.prems s c by simp
  then show ?case using Cons.IH by blast
qed

text \<open>The course of a call of isDup that returns no error.\<close>

lemma isDup_course:
  assumes "isDup L db r t = (r', t', Inr dup)"
  shows "\<exists>r1 index reqKeys h r2 fk.
           fillCache db r t = (r1, Inr index)
         \<and> req_keys L (HttpReq t) = Inr (reqKeys, h)
         \<and> fold (anchor_step index h) reqKeys (r1, [], True) = (r2, fk, True)
         \<and> (if fk = [] then r' = r2 \<and> t' = t \<and> dup
             else tdb_DeleteByAnchor db (calls r2) (CID t) (AppID t) (URI t) (deref h fk) = None
                \<and> dup = snd (exists (called (TdbDeleteByAnchor (CID t) (AppID t) (URI t) (deref h fk)) r2) h fk index)
                \<and> t' = t\<lparr>AllKeys := deref (sort_slices fk h) reqKeys, Anchors := deref (sort_slices fk h) fk\<rparr>
                \<and> r' = (called (TdbDeleteByAnchor (CID t) (AppID t) (URI t) (deref h fk)) r2)
                        \<lparr>anchors := AList.update index
                            (get [] (anchors r2) index @ [deref (sort_slices fk h) fk]) (anchors r2)\<rparr>)"
proof -
  obtain r1 res where fc: "fillCache db r t = (r1, res)" by (cases "fillCache db r t")
  obtain index where res: "res = Inr index"
    using assms fc by (cases res) (auto simp: isDup_def)
  obtain rk where rk: "req_keys L (HttpReq t) = Inr rk"
    using assms fc res by (cases "req_keys L (HttpReq t)") (auto simp: isDup_def)
  obtain reqKeys h where rkh: "rk = (reqKeys, h)" by (cases rk)
  obtain r2 fk ch where fo: "fold (anchor_step index h) reqKeys (r1, [], True) = (r2, fk, ch)"
    by (metis prod_cases3)
  have ch: "ch" using anchor_fold_change[OF fo] .
  show ?thesis
  proof (cases "fk = []")
    case True
    then show ?thesis using assms fc res rk rkh fo ch by (auto simp: isDup_def)
  next
    case False
    then show ?thesis using assms fc res rk rkh fo ch
      by (auto simp: isDup_def exists_def called_def Let_def split: option.splits)
  qed
qed


lemma fillCache_index:
  assumes "fillCache db r t = (r1, Inr index)"
  shows "index = index_of t"
  using assms
  by (auto simp: fillCache_def Let_def split: if_splits sum.splits prod.splits)

lemma isDup_keys:
  assumes "req_keys L q = Inr (reqKeys, h)"
    and "fold (anchor_step index h) reqKeys (r1, [], True) = (r2, fk, ch)"
  shows "distinct (map fst fk) \<and> (\<forall>k a. map_of fk k = Some a \<longrightarrow> map_of reqKeys k = Some a)
         \<and> (\<forall>(k, a) \<in> set fk. a < length h)"
proof -
  have wf: "wf_keys (reqKeys, h)" using req_keys_wf[OF assms(1)] .
  then have d: "distinct (map fst reqKeys)" and b: "\<forall>(k, a) \<in> set reqKeys. a < length h"
    by (auto simp: wf_keys_def)
  have dfk: "distinct (map fst fk)" using anchor_fold_distinct[OF assms(2)] by simp
  have sub: "\<forall>k a. map_of fk k = Some a \<longrightarrow> (k, a) \<in> set reqKeys"
    using anchor_fold_sub[OF assms(2), of "set reqKeys"] by simp
  have "\<forall>(k, a) \<in> set fk. a < length h"
  proof safe
    fix k a
    assume "(k, a) \<in> set fk"
    then have "map_of fk k = Some a" using dfk by simp
    then have "(k, a) \<in> set reqKeys" using sub by blast
    then show "a < length h" using b by auto
  qed
  then show ?thesis using dfk sub d by auto
qed

lemma isDup_anchors_sub:
  assumes "isDup L db r t = (r', t', Inr False)"
  shows "map_of (Anchors t') \<subseteq>\<^sub>m map_of (AllKeys t')"
proof -
  from isDup_course[OF assms] obtain r1 index reqKeys h r2 fk where
    rk: "req_keys L (HttpReq t) = Inr (reqKeys, h)"
    and fo: "fold (anchor_step index h) reqKeys (r1, [], True) = (r2, fk, True)"
    and t': "t' = t\<lparr>AllKeys := deref (sort_slices fk h) reqKeys, Anchors := deref (sort_slices fk h) fk\<rparr>"
    by (auto split: if_splits)
  have sub: "\<forall>k a. map_of fk k = Some a \<longrightarrow> map_of reqKeys k = Some a"
    using isDup_keys[OF rk fo] by simp
  show ?thesis
    unfolding map_le_def t' using sub by (auto simp: map_of_deref)
qed

lemma sorted_deref_sort:
  "\<forall>(k, vs) \<in> set (map (\<lambda>(k, v). (k, sort v)) m). sorted vs"
  by auto

lemma isDup_sorted:
  assumes "isDup L db r t = (r', t', Inr dup)"
  shows "(dup \<and> t' = t \<and> anchors r' = anchors (fst (fillCache db r t)))
       \<or> (\<exists>cand. cand \<noteq> []
            \<and> Anchors t' = map (\<lambda>(k, v). (k, sort v)) cand
            \<and> dup = list_ex (\<lambda>v. DeepEqual v (Anchors t')) (get [] (anchors (fst (fillCache db r t))) (index_of t))
            \<and> get [] (anchors r') (index_of t)
                = get [] (anchors (fst (fillCache db r t))) (index_of t) @ [Anchors t'])"
proof -
  from isDup_course[OF assms] obtain r1 index reqKeys h r2 fk where
    fc: "fillCache db r t = (r1, Inr index)"
    and rk: "req_keys L (HttpReq t) = Inr (reqKeys, h)"
    and fo: "fold (anchor_step index h) reqKeys (r1, [], True) = (r2, fk, True)"
    and c: "if fk = [] then r' = r2 \<and> t' = t \<and> dup
             else tdb_DeleteByAnchor db (calls r2) (CID t) (AppID t) (URI t) (deref h fk) = None
                \<and> dup = snd (exists (called (TdbDeleteByAnchor (CID t) (AppID t) (URI t) (deref h fk)) r2) h fk index)
                \<and> t' = t\<lparr>AllKeys := deref (sort_slices fk h) reqKeys, Anchors := deref (sort_slices fk h) fk\<rparr>
                \<and> r' = (called (TdbDeleteByAnchor (CID t) (AppID t) (URI t) (deref h fk)) r2)
                        \<lparr>anchors := AList.update index
                            (get [] (anchors r2) index @ [deref (sort_slices fk h) fk]) (anchors r2)\<rparr>"
    by blast
  have idx: "index = index_of t" using fillCache_index[OF fc] .
  have an: "anchors r2 = anchors r1" using anchor_fold_frame[OF fo] by simp
  have r1: "fst (fillCache db r t) = r1" using fc by simp
  show ?thesis
  proof (cases "fk = []")
    case True
    then show ?thesis using c an r1 by simp
  next
    case False
    have b: "\<forall>(k, a) \<in> set fk. a < length h" using isDup_keys[OF rk fo] by simp
    have ds: "deref (sort_slices fk h) fk = map (\<lambda>(k, v). (k, sort v)) (deref h fk)"
      using deref_sort_slices[OF b] .
    have ne: "deref h fk \<noteq> []" using False by (simp add: deref_def)
    have A: "Anchors t' = map (\<lambda>(k, v). (k, sort v)) (deref h fk)" using c False ds by simp
    have D: "dup = list_ex (\<lambda>v. DeepEqual v (Anchors t')) (get [] (anchors r1) index)"
      using c False A ds an by (simp add: exists_def called_def Let_def)
    have G: "get [] (anchors r') index = get [] (anchors r1) index @ [Anchors t']"
      using c False A ds an by (simp add: get_def update_conv' called_def)
    show ?thesis using ne A D G r1 idx by blast
  qed
qed

subsection \<open>putTC and Put\<close>

lemma isDup_frame:
  assumes "isDup L db r t = (r', t', res)"
  shows "EnableDeDup r' = EnableDeDup r \<and> ID t' = ID t
         \<and> (\<exists>cs. calls r' = calls r @ cs \<and> (\<forall>tc. TdbUpsert tc \<notin> set cs))"
proof -
  obtain r1 res1 where fc: "fillCache db r t = (r1, res1)" by (cases "fillCache db r t")
  have f1: "EnableDeDup r1 = EnableDeDup r"
    and c1: "\<exists>cs. calls r1 = calls r @ cs \<and> (\<forall>tc. TdbUpsert tc \<notin> set cs)"
    using fillCache_frame[OF fc] by auto
  show ?thesis
  proof (cases res1)
    case (Inl e)
    then show ?thesis using assms fc f1 c1 by (auto simp: isDup_def)
  next
    case (Inr index)
    show ?thesis
    proof (cases "req_keys L (HttpReq t)")
      case (Inl e)
      then show ?thesis using assms fc Inr f1 c1 by (auto simp: isDup_def)
    next
      case rk: (Inr st)
      obtain reqKeys h where st: "st = (reqKeys, h)" by (cases st)
      obtain r2 fk ch where fo: "fold (anchor_step index h) reqKeys (r1, [], True) = (r2, fk, ch)"
        by (metis prod_cases3)
      have f2: "calls r2 = calls r1" "EnableDeDup r2 = EnableDeDup r1"
        using anchor_fold_frame[OF fo] by auto
      obtain cs where cs: "calls r1 = calls r @ cs" "\<forall>tc. TdbUpsert tc \<notin> set cs"
        using c1 by blast
      have "EnableDeDup r' = EnableDeDup r \<and> ID t' = ID t
            \<and> (calls r' = calls r2
               \<or> calls r' = calls r2 @ [TdbDeleteByAnchor (CID t) (AppID t) (URI t) (deref h fk)])"
        using assms fc Inr rk st fo f1 f2
        by (auto simp: isDup_def exists_def called_def Let_def split: if_splits option.splits)
      then show ?thesis using f2 cs by auto
    qed
  qed
qed

lemma putTC_course:
  assumes "EnableDeDup r" and "putTC L db r cid t = (r', res)"
  shows "EnableDeDup r'
       \<and> (\<exists>r1 t1 out. isDup L db r (t\<lparr>CID := cid\<rparr>) = (r1, t1, out)
            \<and> (case out of
                  Inl e \<Rightarrow> r' = r1 \<and> res = Inl (Error ''internal failure'')
                | Inr dup \<Rightarrow>
                    if dup then r' = r1 \<and> res = Inr []
                    else r' = called (TdbUpsert t1) r1
                       \<and> res = (case tdb_Upsert db (calls r1) t1 of
                                  None \<Rightarrow> Inr (ID t)
                                | Some e \<Rightarrow> Inl (Error ''internal failure''))))"
proof -
  obtain r1 t1 out where d: "isDup L db r (t\<lparr>CID := cid\<rparr>) = (r1, t1, out)"
    by (metis prod_cases3)
  have f: "EnableDeDup r1 = EnableDeDup r" "ID t1 = ID t" using isDup_frame[OF d] by auto
  show ?thesis
    using assms d f
    by (auto simp: putTC_def Let_def called_def split: sum.splits option.splits if_splits)
qed

lemma putTC_upserts:
  assumes "EnableDeDup r" and "putTC L db r cid t = (r', res)"
  shows "EnableDeDup r'
       \<and> (\<exists>cs. calls r' = calls r @ cs
            \<and> (\<forall>tc. TdbUpsert tc \<in> set cs \<longrightarrow> (\<exists>r0 t0 r1. isDup L db r0 t0 = (r1, tc, Inr False))))"
proof -
  from putTC_course[OF assms] obtain r1 t1 out where
    e: "EnableDeDup r'" and d: "isDup L db r (t\<lparr>CID := cid\<rparr>) = (r1, t1, out)"
    and c: "case out of
                  Inl e \<Rightarrow> r' = r1 \<and> res = Inl (Error ''internal failure'')
                | Inr dup \<Rightarrow>
                    if dup then r' = r1 \<and> res = Inr []
                    else r' = called (TdbUpsert t1) r1
                       \<and> res = (case tdb_Upsert db (calls r1) t1 of
                                  None \<Rightarrow> Inr (ID t)
                                | Some e \<Rightarrow> Inl (Error ''internal failure''))"
    by blast
  obtain cs where cs: "calls r1 = calls r @ cs" "\<forall>tc. TdbUpsert tc \<notin> set cs"
    using isDup_frame[OF d] by blast
  show ?thesis
  proof (cases out)
    case (Inl x)
    then show ?thesis using e c cs by auto
  next
    case (Inr dup)
    show ?thesis
    proof (cases dup)
      case True
      then show ?thesis using e c cs Inr by auto
    next
      case False
      then have "calls r' = calls r @ (cs @ [TdbUpsert t1])"
        using c Inr cs by (simp add: called_def)
      moreover have "\<forall>tc. TdbUpsert tc \<in> set (cs @ [TdbUpsert t1]) \<longrightarrow>
                       (\<exists>r0 t0 r1. isDup L db r0 t0 = (r1, tc, Inr False))"
        using cs d Inr False by auto
      ultimately show ?thesis using e by blast
    qed
  qed
qed

lemma Put_loop_upserts:
  assumes "EnableDeDup r" and "Put_loop L db cid tcs r ids = (r', ids', e)"
  shows "\<exists>cs. calls r' = calls r @ cs
            \<and> (\<forall>tc. TdbUpsert tc \<in> set cs \<longrightarrow> (\<exists>r0 t0 r1. isDup L db r0 t0 = (r1, tc, Inr False)))"
  using assms
proof (induction tcs arbitrary: r ids)
  case Nil
  then show ?case by simp
next
  case (Cons t tcs)
  obtain r1 res where p: "putTC L db r cid t = (r1, res)" by (cases "putTC L db r cid t")
  from putTC_upserts[OF Cons.prems(1) p] obtain cs where
    e1: "EnableDeDup r1" and cs: "calls r1 = calls r @ cs"
    and u: "\<forall>tc. TdbUpsert tc \<in> set cs \<longrightarrow> (\<exists>r0 t0 r1. isDup L db r0 t0 = (r1, tc, Inr False))"
    by blast
  show ?case
  proof (cases res)
    case (Inl x)
    then have "r' = r1" using Cons.prems(2) p by simp
    then show ?thesis using cs u by blast
  next
    case (Inr tid)
    then have "Put_loop L db cid tcs r1 (ids @ [tid]) = (r', ids', e)"
      using Cons.prems(2) p by simp
    from Cons.IH[OF e1 this] obtain cs' where
      cs': "calls r' = calls r1 @ cs'"
      and u': "\<forall>tc. TdbUpsert tc \<in> set cs' \<longrightarrow> (\<exists>r0 t0 r1. isDup L db r0 t0 = (r1, tc, Inr False))"
      by blast
    have "calls r' = calls r @ (cs @ cs')" using cs cs' by simp
    moreover have "\<forall>tc. TdbUpsert tc \<in> set (cs @ cs') \<longrightarrow>
                     (\<exists>r0 t0 r1. isDup L db r0 t0 = (r1, tc, Inr False))"
      using u u' by auto
    ultimately show ?thesis by blast
  qed
qed

text \<open>
  C5. With deduplication enabled, every test case that \<open>Put\<close> hands to \<open>Upsert\<close> has its
  \<open>Anchors\<close> as a part of its \<open>AllKeys\<close>: a path that is a key of \<open>Anchors\<close> is a key of
  \<open>AllKeys\<close> with the same list of values. (\<open>exists\<close> sorts the lists of the anchors in
  arrays that \<open>AllKeys\<close> shares, so the lists stay equal.)
\<close>

theorem Put_anchors_subset:
  assumes "EnableDeDup r" and "Put L db r cid tcs = (r', ids, e)"
    and "TdbUpsert tc \<in> set (drop (length (calls r)) (calls r'))"
  shows "map_of (Anchors tc) \<subseteq>\<^sub>m map_of (AllKeys tc)"
proof (cases "length tcs = 0")
  case True
  then have "r' = r" using assms(2) by (simp add: Put_def)
  then show ?thesis using assms(3) by simp
next
  case False
  then have "Put_loop L db cid tcs r [] = (r', ids, e)" using assms(2) by (simp add: Put_def)
  from Put_loop_upserts[OF assms(1) this] obtain cs where
    "calls r' = calls r @ cs"
    and u: "\<forall>tc. TdbUpsert tc \<in> set cs \<longrightarrow> (\<exists>r0 t0 r1. isDup L db r0 t0 = (r1, tc, Inr False))"
    by blast
  then have "TdbUpsert tc \<in> set cs" using assms(3) by simp
  then obtain r0 t0 r1 where "isDup L db r0 t0 = (r1, tc, Inr False)" using u by blast
  then show ?thesis by (rule isDup_anchors_sub)
qed


lemma Put_loop_ids:
  "Put_loop L db cid xs r ids0
   = (case Put_loop L db cid xs r [] of (r', new, e) \<Rightarrow> (r', ids0 @ new, e))"
proof (induction xs arbitrary: r ids0)
  case Nil
  then show ?case by simp
next
  case (Cons t xs)
  obtain r1 res where p: "putTC L db r cid t = (r1, res)" by (cases "putTC L db r cid t")
  show ?case
  proof (cases res)
    case (Inl x)
    then show ?thesis using p by simp
  next
    case (Inr tid)
    have "Put_loop L db cid (t # xs) r ids0 = Put_loop L db cid xs r1 (ids0 @ [tid])"
      using p Inr by simp
    also have "\<dots> = (case Put_loop L db cid xs r1 [] of (r', new, e) \<Rightarrow> (r', (ids0 @ [tid]) @ new, e))"
      by (rule Cons.IH)
    finally have l: "Put_loop L db cid (t # xs) r ids0
        = (case Put_loop L db cid xs r1 [] of (r', new, e) \<Rightarrow> (r', ids0 @ tid # new, e))"
      by simp
    have "Put_loop L db cid (t # xs) r [] = Put_loop L db cid xs r1 [tid]"
      using p Inr by simp
    also have "\<dots> = (case Put_loop L db cid xs r1 [] of (r', new, e) \<Rightarrow> (r', [tid] @ new, e))"
      by (rule Cons.IH)
    finally have "Put_loop L db cid (t # xs) r []
        = (case Put_loop L db cid xs r1 [] of (r', new, e) \<Rightarrow> (r', tid # new, e))"
      by simp
    then show ?thesis using l by (simp split: prod.splits)
  qed
qed

lemma Put_loop_append:
  "Put_loop L db cid (xs @ ys) r ids
   = (case Put_loop L db cid xs r ids of
        (r1, ids1, None) \<Rightarrow> Put_loop L db cid ys r1 ids1
      | (r1, ids1, Some e) \<Rightarrow> (r1, ids1, Some e))"
proof (induction xs arbitrary: r ids)
  case Nil
  then show ?case by simp
next
  case (Cons t xs)
  obtain r1 res where p: "putTC L db r cid t = (r1, res)" by (cases "putTC L db r cid t")
  show ?case using p Cons.IH by (cases res) simp_all
qed

lemma Put_loop_length:
  assumes "Put_loop L db cid xs r ids0 = (r', ids, None)"
  shows "length ids = length ids0 + length xs"
  using assms
proof (induction xs arbitrary: r ids0)
  case Nil
  then show ?case by simp
next
  case (Cons t xs)
  obtain r1 res where p: "putTC L db r cid t = (r1, res)" by (cases "putTC L db r cid t")
  show ?case
  proof (cases res)
    case (Inl x)
    then show ?thesis using Cons.prems p by simp
  next
    case (Inr tid)
    then have "Put_loop L db cid xs r1 (ids0 @ [tid]) = (r', ids, None)" using Cons.prems p by simp
    from Cons.IH[OF this] show ?thesis by simp
  qed
qed

lemma Put_loop_dedup:
  assumes "EnableDeDup r" and "Put_loop L db cid xs r ids0 = (r', ids, e)"
  shows "EnableDeDup r'"
  using assms
proof (induction xs arbitrary: r ids0)
  case Nil
  then show ?case by simp
next
  case (Cons t xs)
  obtain r1 res where p: "putTC L db r cid t = (r1, res)" by (cases "putTC L db r cid t")
  have e1: "EnableDeDup r1" using putTC_course[OF Cons.prems(1) p] by simp
  show ?case
  proof (cases res)
    case (Inl x)
    then show ?thesis using Cons.prems p e1 by simp
  next
    case (Inr tid)
    then have "Put_loop L db cid xs r1 (ids0 @ [tid]) = (r', ids, e)" using Cons.prems p by simp
    from Cons.IH[OF e1 this] show ?thesis .
  qed
qed

lemma Put_loop_prefix:
  assumes "Put_loop L db cid tcs r [] = (r', ids, e)" and "i < length ids"
  shows "i < length tcs
       \<and> (\<exists>ri r1. Put_loop L db cid (take i tcs) r [] = (ri, take i ids, None)
              \<and> putTC L db ri cid (tcs ! i) = (r1, Inr (ids ! i))
              \<and> Put_loop L db cid (take (Suc i) tcs) r [] = (r1, take (Suc i) ids, None))"
  using assms
proof (induction tcs arbitrary: r ids i r' e)
  case Nil
  then show ?case by simp
next
  case (Cons t tcs)
  obtain r1 res where p: "putTC L db r cid t = (r1, res)" by (cases "putTC L db r cid t")
  show ?case
  proof (cases res)
    case (Inl x)
    then show ?thesis using Cons.prems p by simp
  next
    case (Inr tid)
    obtain r2 new e2 where rest: "Put_loop L db cid tcs r1 [] = (r2, new, e2)"
      by (metis prod_cases3)
    have "Put_loop L db cid (t # tcs) r [] = Put_loop L db cid tcs r1 [tid]" using p Inr by simp
    also have "\<dots> = (r2, tid # new, e2)" using Put_loop_ids[of L db cid tcs r1 "[tid]"] rest by simp
    finally have ids: "ids = tid # new" using Cons.prems(1) by simp
    show ?thesis
    proof (cases i)
      case 0
      then show ?thesis using p Inr ids by simp
    next
      case (Suc j)
      then have j: "j < length new" using Cons.prems(2) ids by simp
      from Cons.IH[OF rest j] obtain rj rj' where
        jl: "j < length tcs"
        and a: "Put_loop L db cid (take j tcs) r1 [] = (rj, take j new, None)"
        and b: "putTC L db rj cid (tcs ! j) = (rj', Inr (new ! j))"
        and c: "Put_loop L db cid (take (Suc j) tcs) r1 [] = (rj', take (Suc j) new, None)"
        by blast
      have a': "Put_loop L db cid (take i (t # tcs)) r [] = (rj, take i ids, None)"
        using p Inr a Put_loop_ids[of L db cid "take j tcs" r1 "[tid]"] by (simp add: Suc ids)
      have c': "Put_loop L db cid (take (Suc i) (t # tcs)) r [] = (rj', take (Suc i) ids, None)"
        using p Inr c Put_loop_ids[of L db cid "take (Suc j) tcs" r1 "[tid]"] by (simp add: Suc ids)
      have b': "putTC L db rj cid ((t # tcs) ! i) = (rj', Inr (ids ! i))"
        using b by (simp add: Suc ids)
      show ?thesis using jl a' b' c' Suc by auto
    qed
  qed
qed

text \<open>
  C7. With deduplication enabled, every slot \<open>i\<close> of the ids that \<open>Put\<close> returns belongs to
  the case at position \<open>i\<close> of the batch, which went through without an error: \<open>isDup\<close>, run
  on that case (with \<open>CID\<close> set) in the service as \<open>Put\<close> reached it, returned no error;
  when it returned \<open>true\<close> the slot is the empty string, the service is the one \<open>isDup\<close>
  left and no \<open>Upsert\<close> was called for the case; when it returned \<open>false\<close> the case was
  upserted with success, as \<open>isDup\<close> left it, and the slot is its id.
\<close>

theorem Put_slots:
  assumes "EnableDeDup r" and "Put L db r cid tcs = (r', ids, e)" and "i < length ids"
  shows "i < length tcs
       \<and> (case isDup L db (Put_reached L db cid tcs r i) ((tcs ! i)\<lparr>CID := cid\<rparr>) of
            (r1, t1, Inl err) \<Rightarrow> False
          | (r1, t1, Inr dup) \<Rightarrow>
              if dup
              then ids ! i = [] \<and> Put_reached L db cid tcs r (Suc i) = r1
                 \<and> (\<forall>tc. TdbUpsert tc \<notin> set (drop (length (calls (Put_reached L db cid tcs r i))) (calls r1)))
              else ids ! i = ID (tcs ! i) \<and> tdb_Upsert db (calls r1) t1 = None
                 \<and> Put_reached L db cid tcs r (Suc i) = called (TdbUpsert t1) r1)"
proof -
  have ne: "length tcs \<noteq> 0" using assms(2,3) by (auto simp: Put_def split: if_splits)
  then have P: "Put_loop L db cid tcs r [] = (r', ids, e)" using assms(2) by (simp add: Put_def)
  from Put_loop_prefix[OF P assms(3)] obtain ri r1 where
    il: "i < length tcs"
    and a: "Put_loop L db cid (take i tcs) r [] = (ri, take i ids, None)"
    and b: "putTC L db ri cid (tcs ! i) = (r1, Inr (ids ! i))"
    and c: "Put_loop L db cid (take (Suc i) tcs) r [] = (r1, take (Suc i) ids, None)"
    by blast
  have ri: "Put_reached L db cid tcs r i = ri" using a by (simp add: Put_reached_def)
  have r1: "Put_reached L db cid tcs r (Suc i) = r1" using c by (simp add: Put_reached_def)
  have ei: "EnableDeDup ri" using Put_loop_dedup[OF assms(1) a] .
  define res :: "error + string" where "res = Inr (ids ! i)"
  have b': "putTC L db ri cid (tcs ! i) = (r1, res)" using b by (simp add: res_def)
  from putTC_course[OF ei b'] obtain rd t1 out where
    d: "isDup L db ri ((tcs ! i)\<lparr>CID := cid\<rparr>) = (rd, t1, out)"
    and k0: "case out of
                  Inl e \<Rightarrow> r1 = rd \<and> res = Inl (Error ''internal failure'')
                | Inr dup \<Rightarrow>
                    if dup then r1 = rd \<and> res = Inr []
                    else r1 = called (TdbUpsert t1) rd
                       \<and> res = (case tdb_Upsert db (calls rd) t1 of
                                  None \<Rightarrow> Inr (ID (tcs ! i))
                                | Some e \<Rightarrow> Inl (Error ''internal failure''))"
    by blast
  note k = k0[unfolded res_def]
  obtain cs where cs: "calls rd = calls ri @ cs" "\<forall>tc. TdbUpsert tc \<notin> set cs"
    using isDup_frame[OF d] by blast
  show ?thesis
  proof (cases out)
    case (Inl x)
    then show ?thesis using k by simp
  next
    case (Inr dup)
    show ?thesis
    proof (cases dup)
      case True
      then show ?thesis using il ri r1 d k Inr cs by simp
    next
      case False
      then show ?thesis using il ri r1 d k Inr by (auto split: option.splits)
    qed
  qed
qed

lemma putTC_calls:
  assumes "putTC L db r cid t = (r', res)"
  shows "\<exists>cs. calls r' = calls r @ cs"
proof -
  obtain r1 t1 out where d: "isDup L db r (t\<lparr>CID := cid\<rparr>) = (r1, t1, out)"
    by (metis prod_cases3)
  obtain cs where "calls r1 = calls r @ cs" using isDup_frame[OF d] by blast
  then show ?thesis
    using assms d
    by (auto simp: putTC_def Let_def called_def split: sum.splits option.splits if_splits)
qed

lemma Put_loop_calls:
  assumes "Put_loop L db cid xs r ids0 = (r', ids, e)"
  shows "\<exists>cs. calls r' = calls r @ cs"
  using assms
proof (induction xs arbitrary: r ids0)
  case Nil
  then show ?case by simp
next
  case (Cons t xs)
  obtain r1 res where p: "putTC L db r cid t = (r1, res)" by (cases "putTC L db r cid t")
  obtain cs where cs: "calls r1 = calls r @ cs" using putTC_calls[OF p] by blast
  show ?case
  proof (cases res)
    case (Inl x)
    then show ?thesis using Cons.prems p cs by simp
  next
    case (Inr tid)
    then have "Put_loop L db cid xs r1 (ids0 @ [tid]) = (r', ids, e)" using Cons.prems p by simp
    from Cons.IH[OF this] show ?thesis using cs by auto
  qed
qed

text \<open>
  C10. \<open>Put\<close> is not atomic. When the cases before position \<open>i\<close> went through and \<open>putTC\<close>
  fails on the case at position \<open>i\<close>, \<open>Put\<close> returns the error \<open>failed saving testcase\<close>
  with the \<open>i\<close> ids collected so far, and its service is the one the failed \<open>putTC\<close> left:
  the calls made for the earlier cases, their upserts among them, stay made, the later
  cases are not looked at, and nothing is called to undo anything.
\<close>

theorem Put_not_atomic:
  assumes "i < length tcs"
    and "Put_collected L db cid tcs r i = (ids, None)"
    and "putTC L db (Put_reached L db cid tcs r i) cid (tcs ! i) = (r2, Inl err)"
  shows "Put L db r cid tcs = (r2, ids, Some (Error ''failed saving testcase''))
       \<and> length ids = i
       \<and> (\<exists>cs1 cs2. calls (Put_reached L db cid tcs r i) = calls r @ cs1
                   \<and> calls r2 = calls r @ cs1 @ cs2)"
proof -
  define ri where "ri = Put_reached L db cid tcs r i"
  have a: "Put_loop L db cid (take i tcs) r [] = (ri, ids, None)"
    using assms(2) by (simp add: ri_def Put_reached_def Put_collected_def prod_eq_iff)
  have tcs: "tcs = take i tcs @ (tcs ! i) # drop (Suc i) tcs"
    using assms(1) by (simp add: id_take_nth_drop)
  have "Put_loop L db cid (take i tcs @ (tcs ! i) # drop (Suc i) tcs) r []
        = Put_loop L db cid ((tcs ! i) # drop (Suc i) tcs) ri ids"
    using a by (simp add: Put_loop_append)
  also have "\<dots> = (r2, ids, Some (Error ''failed saving testcase''))"
    using assms(3) by (simp add: ri_def)
  finally have "Put_loop L db cid tcs r [] = (r2, ids, Some (Error ''failed saving testcase''))"
    using tcs by simp
  then have P: "Put L db r cid tcs = (r2, ids, Some (Error ''failed saving testcase''))"
    using assms(1) by (auto simp: Put_def)
  have l: "length ids = i" using Put_loop_length[OF a] assms(1) by simp
  obtain cs1 where c1: "calls ri = calls r @ cs1" using Put_loop_calls[OF a] by blast
  obtain cs2 where c2: "calls r2 = calls ri @ cs2" using putTC_calls assms(3) ri_def by blast
  show ?thesis using P l c1 c2 by (auto simp: ri_def)
qed


theorem Put_anchors_subset_witness:
  "TdbUpsert (ex_tc\<lparr>AllKeys := [(''header.Accept'', [''textjson'']), (''body.tags'', [''a'', ''b''])],
                    Anchors := [(''body.tags'', [''a'', ''b''])]\<rparr>)
     \<in> set (calls (fst (Put ex_lib ex_store ex_warm ''cid'' [ex_tc])))
   \<and> map_of [(''body.tags'', [''a'', ''b''])]
       \<subseteq>\<^sub>m map_of [(''header.Accept'', [''textjson'']), (''body.tags'', [''a'', ''b''])]"
proof -
  obtain r' ids e where P: "Put ex_lib ex_store ex_warm ''cid'' [ex_tc] = (r', ids, e)"
    by (metis prod_cases3)
  have E: "EnableDeDup ex_warm" by (simp add: ex_warm_def)
  have U: "TdbUpsert (ex_tc\<lparr>AllKeys := [(''header.Accept'', [''textjson'']), (''body.tags'', [''a'', ''b''])],
                    Anchors := [(''body.tags'', [''a'', ''b''])]\<rparr>)
     \<in> set (drop (length (calls ex_warm)) (calls (fst (Put ex_lib ex_store ex_warm ''cid'' [ex_tc]))))"
    by code_simp
  then have U': "TdbUpsert (ex_tc\<lparr>AllKeys := [(''header.Accept'', [''textjson'']), (''body.tags'', [''a'', ''b''])],
                    Anchors := [(''body.tags'', [''a'', ''b''])]\<rparr>)
     \<in> set (drop (length (calls ex_warm)) (calls r'))"
    using P by simp
  show ?thesis
    using Put_anchors_subset [OF E P U'] U by (auto dest: in_set_dropD)
qed

text \<open>
  C9. A call of \<open>isDup\<close> that returns no error either found no anchor at all (it answers
  \<open>true\<close> and leaves the test case and \<open>anchors\<close> alone), or went on to \<open>exists\<close>: then the
  \<open>Anchors\<close> of the test case are the candidate with every list sorted into ascending
  order, the answer is whether a combination cached for the index equals these sorted
  anchors, and these sorted anchors are what is appended to \<open>anchors[index]\<close>. And with
  deduplication enabled, every test case that \<open>Put\<close> hands to \<open>Upsert\<close> has all the lists of
  its \<open>Anchors\<close> sorted.
\<close>

theorem anchors_sorted:
  "(isDup L db r t = (r', t', Inr dup) \<longrightarrow>
      (dup \<and> t' = t \<and> anchors r' = anchors (fst (fillCache db r t)))
      \<or> (\<exists>cand. cand \<noteq> []
            \<and> Anchors t' = map (\<lambda>(k, v). (k, sort v)) cand
            \<and> (\<forall>(k, vs) \<in> set (Anchors t'). sorted vs)
            \<and> dup = list_ex (\<lambda>v. DeepEqual v (Anchors t'))
                       (get [] (anchors (fst (fillCache db r t))) (index_of t))
            \<and> get [] (anchors r') (index_of t)
                = get [] (anchors (fst (fillCache db r t))) (index_of t) @ [Anchors t']))
   \<and> (EnableDeDup r0 \<and> Put L db r0 cid tcs = (r0', ids, e)
        \<and> TdbUpsert tc \<in> set (drop (length (calls r0)) (calls r0'))
      \<longrightarrow> (\<forall>(k, vs) \<in> set (Anchors tc). sorted vs))"
proof (intro conjI impI)
  assume a: "isDup L db r t = (r', t', Inr dup)"
  show "(dup \<and> t' = t \<and> anchors r' = anchors (fst (fillCache db r t)))
      \<or> (\<exists>cand. cand \<noteq> []
            \<and> Anchors t' = map (\<lambda>(k, v). (k, sort v)) cand
            \<and> (\<forall>(k, vs) \<in> set (Anchors t'). sorted vs)
            \<and> dup = list_ex (\<lambda>v. DeepEqual v (Anchors t'))
                       (get [] (anchors (fst (fillCache db r t))) (index_of t))
            \<and> get [] (anchors r') (index_of t)
                = get [] (anchors (fst (fillCache db r t))) (index_of t) @ [Anchors t'])"
  proof -
    from isDup_sorted[OF a] consider
      (none) "dup \<and> t' = t \<and> anchors r' = anchors (fst (fillCache db r t))"
      | (some) cand where "cand \<noteq> []" "Anchors t' = map (\<lambda>(k, v). (k, sort v)) cand"
          "dup = list_ex (\<lambda>v. DeepEqual v (Anchors t'))
                   (get [] (anchors (fst (fillCache db r t))) (index_of t))"
          "get [] (anchors r') (index_of t)
             = get [] (anchors (fst (fillCache db r t))) (index_of t) @ [Anchors t']"
      by blast
    then show ?thesis
    proof cases
      case none
      then show ?thesis by blast
    next
      case some
      have "\<forall>(k, vs) \<in> set (Anchors t'). sorted vs"
        using sorted_deref_sort[of cand] some(2) by simp
      then show ?thesis using some by blast
    qed
  qed
next
  assume b: "EnableDeDup r0 \<and> Put L db r0 cid tcs = (r0', ids, e)
        \<and> TdbUpsert tc \<in> set (drop (length (calls r0)) (calls r0'))"
  show "\<forall>(k, vs) \<in> set (Anchors tc). sorted vs"
  proof (cases "length tcs = 0")
    case True
    then have "r0' = r0" using b by (simp add: Put_def)
    then show ?thesis using b by simp
  next
    case False
    then have "Put_loop L db cid tcs r0 [] = (r0', ids, e)" using b by (simp add: Put_def)
    from Put_loop_upserts[OF _ this] b obtain cs where
      "calls r0' = calls r0 @ cs"
      and u: "\<forall>tc. TdbUpsert tc \<in> set cs \<longrightarrow> (\<exists>ra ta rb. isDup L db ra ta = (rb, tc, Inr False))"
      by blast
    then have "TdbUpsert tc \<in> set cs" using b by simp
    then obtain ra ta rb where "isDup L db ra ta = (rb, tc, Inr False)" using u by blast
    from isDup_sorted[OF this] obtain cand where "Anchors tc = map (\<lambda>(k, v). (k, sort v)) cand"
      by auto
    then show ?thesis using sorted_deref_sort[of cand] by simp
  qed
qed

theorem anchors_sorted_witness:
  "Anchors (fst (snd (isDup ex_lib ex_store ex_warm (ex_tc\<lparr>CID := ''cid''\<rparr>))))
     = [(''body.tags'', [''a'', ''b''])]
   \<and> get [] (anchors (fst (isDup ex_lib ex_store ex_warm (ex_tc\<lparr>CID := ''cid''\<rparr>))))
       ''cid-app-/b10aliens''
     = [[(''body.tags'', [''a'', ''b''])]]
   \<and> snd (snd (isDup ex_lib ex_store ex_warm (ex_tc\<lparr>CID := ''cid''\<rparr>))) = Inr False"
proof -
  have A: "Anchors (fst (snd (isDup ex_lib ex_store ex_warm (ex_tc\<lparr>CID := ''cid''\<rparr>))))
     = [(''body.tags'', [''a'', ''b''])]"
    by code_simp
  have B: "get [] (anchors (fst (isDup ex_lib ex_store ex_warm (ex_tc\<lparr>CID := ''cid''\<rparr>))))
       ''cid-app-/b10aliens''
     = [[(''body.tags'', [''a'', ''b''])]]"
    by code_simp
  have C: "snd (snd (isDup ex_lib ex_store ex_warm (ex_tc\<lparr>CID := ''cid''\<rparr>))) = Inr False"
    by code_simp
  obtain r' t' where D: "isDup ex_lib ex_store ex_warm (ex_tc\<lparr>CID := ''cid''\<rparr>) = (r', t', Inr False)"
    using C by (metis prod.collapse)
  show ?thesis
    using anchors_sorted [of ex_lib ex_store ex_warm "ex_tc\<lparr>CID := ''cid''\<rparr>" r' t' False] A B C D
    by simp
qed

theorem Put_slots_witness:
  "fst (snd (Put ex_lib ex_store ex_regression ''cid'' [ex_tc, ex_tc\<lparr>ID := ''tc-2''\<rparr>]))
   = [''tc-1'', []]"
proof -
  obtain r' ids e where
    P: "Put ex_lib ex_store ex_regression ''cid'' [ex_tc, ex_tc\<lparr>ID := ''tc-2''\<rparr>] = (r', ids, e)"
    by (metis prod_cases3)
  have E: "EnableDeDup ex_regression" by (simp add: ex_regression_def)
  have I: "fst (snd (Put ex_lib ex_store ex_regression ''cid'' [ex_tc, ex_tc\<lparr>ID := ''tc-2''\<rparr>]))
           = [''tc-1'', []]"
    by code_simp
  then have "1 < length ids" using P by simp
  from Put_slots [OF E P this] show ?thesis using I by simp
qed

theorem Put_not_atomic_witness:
  "snd (Put ex_lib ex_store_full ex_regression ''cid'' [ex_tc, ex_tc2, ex_tc])
     = ([''tc-1''], Some (Error ''failed saving testcase''))
   \<and> map (\<lambda>c. case c of TdbUpsert t \<Rightarrow> ID t | _ \<Rightarrow> [])
       (calls (fst (Put ex_lib ex_store_full ex_regression ''cid'' [ex_tc, ex_tc2, ex_tc])))
     = [[], [], ''tc-1'', [], ''tc-2'']"
proof -
  have C: "Put_collected ex_lib ex_store_full ''cid'' [ex_tc, ex_tc2, ex_tc] ex_regression 1
           = ([''tc-1''], None)"
    by code_simp
  have "snd (putTC ex_lib ex_store_full
          (Put_reached ex_lib ex_store_full ''cid'' [ex_tc, ex_tc2, ex_tc] ex_regression 1)
          ''cid'' ([ex_tc, ex_tc2, ex_tc] ! 1)) = Inl (Error ''internal failure'')"
    by code_simp
  then obtain r2 where
    F: "putTC ex_lib ex_store_full
          (Put_reached ex_lib ex_store_full ''cid'' [ex_tc, ex_tc2, ex_tc] ex_regression 1)
          ''cid'' ([ex_tc, ex_tc2, ex_tc] ! 1) = (r2, Inl (Error ''internal failure''))"
    by (metis prod.collapse)
  have U: "map (\<lambda>c. case c of TdbUpsert t \<Rightarrow> ID t | _ \<Rightarrow> [])
       (calls (fst (Put ex_lib ex_store_full ex_regression ''cid'' [ex_tc, ex_tc2, ex_tc])))
     = [[], [], ''tc-1'', [], ''tc-2'']"
    by code_simp
  have "(1::nat) < length [ex_tc, ex_tc2, ex_tc]" by simp
  from Put_not_atomic [OF this C F] show ?thesis using U by simp
qed

subsection \<open>DeleteTC and fillCache\<close>

lemma fill_cases_anchors:
  "fst (fill_cases tcs (an, fc, nf)) = an @ map Anchors tcs"
  unfolding fill_cases_def
proof (induction tcs arbitrary: an fc nf)
  case Nil
  then show ?case by simp
next
  case (Cons t tcs)
  obtain fc' nf' where f: "fill_keys (AllKeys t) (fc, nf) = (fc', nf')"
    by (cases "fill_keys (AllKeys t) (fc, nf)")
  show ?case using Cons.IH[of "an @ [Anchors t]" fc' nf'] by (simp add: f)
qed

text \<open>
  C6, amended. When \<open>DeleteTC\<close> succeeds it has evicted \<open>anchors[index]\<close> for the index of
  the deleted case and left \<open>noisyFields\<close> and \<open>fieldCounts\<close> as they were. \<open>fillCache\<close>
  looks only at those two: for an index that has both entries (every index that was
  filled before) the next access changes nothing and calls nothing, so the anchors of the
  index start again from none; only for an index that lacks one of them does the next
  access call \<open>GetKeys\<close> and rebuild the three entries, the anchors being those of the test
  cases the store returns.
\<close>

theorem DeleteTC_evicts:
  assumes "tdb_Get db (calls r) cid tid = Inr t"
    and "DeleteTC db r cid tid = (r', None)"
    and "index_of t2 = index_of t"
  shows "anchors r' = AList.delete (index_of t) (anchors r)
       \<and> map_of (anchors r') (index_of t) = None
       \<and> noisyFields r' = noisyFields r \<and> fieldCounts r' = fieldCounts r
       \<and> (if map_of (noisyFields r) (index_of t) \<noteq> None \<and> map_of (fieldCounts r) (index_of t) \<noteq> None
           then fillCache db r' t2 = (r', Inr (index_of t))
           else (case tdb_GetKeys db (calls r') (CID t2) (AppID t2) (URI t2) of
                   Inl err \<Rightarrow> fillCache db r' t2 = (called (TdbGetKeys (CID t2) (AppID t2) (URI t2)) r', Inl err)
                 | Inr tcs \<Rightarrow>
                     snd (fillCache db r' t2) = Inr (index_of t)
                   \<and> calls (fst (fillCache db r' t2)) = calls r' @ [TdbGetKeys (CID t2) (AppID t2) (URI t2)]
                   \<and> map_of (anchors (fst (fillCache db r' t2))) (index_of t) = Some (map Anchors tcs)))"
proof -
  have r': "r' = called TeleDeleteTc (called (TdbDelete tid)
              ((called (TdbGet cid tid) r)\<lparr>anchors := AList.delete (index_of t) (anchors r)\<rparr>))"
    using assms(1,2) by (auto simp: DeleteTC_def Let_def split: option.splits)
  have a: "anchors r' = AList.delete (index_of t) (anchors r)"
    and n: "noisyFields r' = noisyFields r" and f: "fieldCounts r' = fieldCounts r"
    by (simp_all add: r' called_def)
  have m: "map_of (anchors r') (index_of t) = None" by (simp add: a delete_conv')
  show ?thesis
  proof (cases "map_of (noisyFields r) (index_of t) \<noteq> None \<and> map_of (fieldCounts r) (index_of t) \<noteq> None")
    case True
    then have "fillCache db r' t2 = (r', Inr (index_of t))"
      using n f assms(3) by (simp add: fillCache_def Let_def)
    then show ?thesis using a m n f True by simp
  next
    case False
    show ?thesis
    proof (cases "tdb_GetKeys db (calls r') (CID t2) (AppID t2) (URI t2)")
      case (Inl err)
      then have "fillCache db r' t2 = (called (TdbGetKeys (CID t2) (AppID t2) (URI t2)) r', Inl err)"
        using False n f assms(3) by (auto simp: fillCache_def Let_def)
      then show ?thesis using a m n f Inl by (subst if_not_P[OF False]) simp
    next
      case (Inr tcs)
      obtain an fc nf where fc: "fill_cases tcs ([], [], []) = (an, fc, nf)"
        by (metis prod_cases3)
      have an: "an = map Anchors tcs" using fill_cases_anchors[of tcs "[]" "[]" "[]"] fc by simp
      have "fillCache db r' t2
            = (called (TdbGetKeys (CID t2) (AppID t2) (URI t2))
                 (r'\<lparr>fieldCounts := AList.update (index_of t) fc (fieldCounts r'),
                     noisyFields := AList.update (index_of t) nf (noisyFields r'),
                     anchors := AList.update (index_of t) an (anchors r')\<rparr>), Inr (index_of t))"
        using False n f assms(3) Inr fc by (auto simp: fillCache_def Let_def)
      then have "snd (fillCache db r' t2) = Inr (index_of t)
                 \<and> calls (fst (fillCache db r' t2)) = calls r' @ [TdbGetKeys (CID t2) (AppID t2) (URI t2)]
                 \<and> map_of (anchors (fst (fillCache db r' t2))) (index_of t) = Some (map Anchors tcs)"
        using an by (simp add: called_def update_conv')
      then show ?thesis using a m n f Inr by (subst if_not_P[OF False]) simp
    qed
  qed
qed


text \<open>
  C6 as stated fails. A fresh service captures two test cases into a store that keeps
  them, and the first is deleted. The index was filled, so the next \<open>fillCache\<close> returns
  the service as it is: \<open>anchors[index]\<close> stays absent although the store still holds the
  second case with its anchors, and a capture equal to that second case passes \<open>isDup\<close> as
  new without any call to \<open>GetKeys\<close>.
\<close>

theorem DeleteTC_refill_counterexample:
  "DeleteTC ex_store_live ex_captured ''cid'' ''tc-1'' = (ex_deleted, None)
   \<and> map_of (noisyFields ex_captured) ''cid-app-/b10aliens'' = Some []
   \<and> map_of (anchors ex_deleted) ''cid-app-/b10aliens'' = None
   \<and> fillCache ex_store_live ex_deleted ex_tc2 = (ex_deleted, Inr ''cid-app-/b10aliens'')
   \<and> map Anchors (stored (calls ex_deleted))
       = [[(''header.Accept'', [''textjson'']), (''body.ts'', [''1E+00'']), (''body.user'', [''bob''])]]
   \<and> snd (snd (isDup ex_lib ex_store_live ex_deleted ex_tc2)) = Inr False
   \<and> TdbGetKeys ''cid'' ''app'' ''/b10aliens''
       \<notin> set (drop (length (calls ex_deleted))
                 (calls (fst (isDup ex_lib ex_store_live ex_deleted ex_tc2))))"
  by code_simp

theorem DeleteTC_evicts_witness:
  "fillCache ex_store_live ex_deleted ex_tc2 = (ex_deleted, Inr ''cid-app-/b10aliens'')
   \<and> anchors ex_deleted = []
   \<and> map_of (anchors (fst (fillCache ex_store_live
        (fst (DeleteTC ex_store_live (ex_regression\<lparr>calls := calls ex_captured\<rparr>) ''cid'' ''tc-1''))
        ex_tc2))) ''cid-app-/b10aliens''
     = Some [[(''header.Accept'', [''textjson'']), (''body.ts'', [''1E+00'']), (''body.user'', [''bob''])]]"
proof -
  have G: "tdb_Get ex_store_live (calls ex_captured) ''cid'' ''tc-1''
           = Inr (ex_tc\<lparr>AllKeys := [(''header.Accept'', [''textjson'']), (''body.tags'', [''a'', ''b''])],
                        Anchors := [(''header.Accept'', [''textjson'']), (''body.tags'', [''a'', ''b''])]\<rparr>)"
    by code_simp
  have D: "DeleteTC ex_store_live ex_captured ''cid'' ''tc-1'' = (ex_deleted, None)"
    by code_simp
  have I: "index_of ex_tc2
           = index_of (ex_tc\<lparr>AllKeys := [(''header.Accept'', [''textjson'']), (''body.tags'', [''a'', ''b''])],
                        Anchors := [(''header.Accept'', [''textjson'']), (''body.tags'', [''a'', ''b''])]\<rparr>)"
    by code_simp
  have N: "index_of ex_tc2 = ''cid-app-/b10aliens''" by code_simp
  have F: "map_of (noisyFields ex_captured) ''cid-app-/b10aliens'' \<noteq> None
           \<and> map_of (fieldCounts ex_captured) ''cid-app-/b10aliens'' \<noteq> None"
    by code_simp
  have A: "AList.delete ''cid-app-/b10aliens'' (anchors ex_captured) = []" by code_simp
  have G2: "tdb_Get ex_store_live (calls (ex_regression\<lparr>calls := calls ex_captured\<rparr>)) ''cid'' ''tc-1''
           = Inr (ex_tc\<lparr>AllKeys := [(''header.Accept'', [''textjson'']), (''body.tags'', [''a'', ''b''])],
                        Anchors := [(''header.Accept'', [''textjson'']), (''body.tags'', [''a'', ''b''])]\<rparr>)"
    using G by simp
  obtain r2 where D2: "DeleteTC ex_store_live (ex_regression\<lparr>calls := calls ex_captured\<rparr>) ''cid'' ''tc-1''
                       = (r2, None)"
  proof -
    have "snd (DeleteTC ex_store_live (ex_regression\<lparr>calls := calls ex_captured\<rparr>) ''cid'' ''tc-1'') = None"
      by code_simp
    then show ?thesis using that by (metis prod.collapse)
  qed
  have K: "tdb_GetKeys ex_store_live
             (calls (fst (DeleteTC ex_store_live (ex_regression\<lparr>calls := calls ex_captured\<rparr>) ''cid'' ''tc-1'')))
             (CID ex_tc2) (AppID ex_tc2) (URI ex_tc2)
           = Inr [ex_tc2\<lparr>AllKeys := [(''header.Accept'', [''textjson'']), (''body.ts'', [''1E+00'']), (''body.user'', [''bob''])],
                         Anchors := [(''header.Accept'', [''textjson'']), (''body.ts'', [''1E+00'']), (''body.user'', [''bob''])]\<rparr>]"
    by code_simp
  have F2: "map_of (noisyFields (ex_regression\<lparr>calls := calls ex_captured\<rparr>)) ''cid-app-/b10aliens'' = None"
    by code_simp
  show ?thesis
    using DeleteTC_evicts [OF G D I] DeleteTC_evicts [OF G2 D2 I] F A N K F2 D2
    by (simp add: index_of_def ex_tc_def)
qed

end
